theory Spec2Isabelle
  imports Main "HOL-Library.Sublist"
begin

text \<open>
  A model of the pi-gitnexus extension: the pattern extractor, the path guard and the
  one-shot invoker of \<open>gitnexus.ts\<close>, the JSON-RPC client of \<open>mcp-client.ts\<close>, the
  \<open>tool_result\<close> hook of \<open>index.ts\<close> and the \<open>gitnexus_context\<close> tool of \<open>tools.ts\<close>.
  Functions of the sources keep their names. What the sources get from outside (the
  parser of a line of JSON, the presence of an index, the output of a lookup, the
  events of a child process) is a parameter or an event of the model. An exception is a
  value, a handler a total function of the state.
\<close>

section \<open>JavaScript strings\<close>

text \<open>
  A JavaScript string is a sequence of UTF-16 code units; \<open>length\<close>, \<open>slice\<close>,
  \<open>split\<close> and the regular expressions of the sources all work on code units. The
  model uses \<open>string\<close>, one \<open>char\<close> per code unit, which covers the code units
  below 256.
\<close>

definition NL :: char where
  "NL = CHR 0x0A"

definition is_ws :: "char \<Rightarrow> bool" where
  \<comment> \<open>the class \<open>\s\<close> of a regular expression, and what \<open>trim\<close> removes: tab, line feed,
      vertical tab, form feed, carriage return, space, no-break space\<close>
  "is_ws c = (c \<in> {CHR 0x09, CHR 0x0A, CHR 0x0B, CHR 0x0C, CHR 0x0D, CHR 0x20, CHR 0xA0})"

definition trim :: "string \<Rightarrow> string" where
  "trim s = rev (dropWhile is_ws (rev (dropWhile is_ws s)))"

fun split_on :: "char \<Rightarrow> string \<Rightarrow> string list" where
  \<comment> \<open>\<open>s.split(d)\<close> for a one-character separator: never empty, \<open>''.split(d)\<close> is \<open>['']\<close>\<close>
  "split_on d [] = [[]]"
| "split_on d (c # cs) =
     (if c = d then [] # split_on d cs
      else (case split_on d cs of
              w # ws \<Rightarrow> (c # w) # ws
            | [] \<Rightarrow> [[c]]))"

fun join :: "string \<Rightarrow> string list \<Rightarrow> string" where
  \<comment> \<open>\<open>xs.join(sep)\<close>\<close>
  "join sep [] = []"
| "join sep [x] = x"
| "join sep (x # y # ys) = x @ sep @ join sep (y # ys)"

fun split_ws_from :: "bool \<Rightarrow> string \<Rightarrow> string list" where
  \<comment> \<open>\<open>s.split(/\s+/)\<close>, read left to right; the flag tells that the previous character
      was whitespace, so that a run of whitespace separates once\<close>
  "split_ws_from in_sep [] = [[]]"
| "split_ws_from in_sep (c # cs) =
     (if is_ws c then (if in_sep then split_ws_from True cs else [] # split_ws_from True cs)
      else (case split_ws_from False cs of
              w # ws \<Rightarrow> (c # w) # ws
            | [] \<Rightarrow> [[c]]))"

definition split_ws :: "string \<Rightarrow> string list" where
  "split_ws s = split_ws_from False s"

definition strip_chars :: "string \<Rightarrow> string \<Rightarrow> string" where
  \<comment> \<open>\<open>s.replace(/[...]/g, '')\<close> for a character class: every character of the class is
      removed\<close>
  "strip_chars cls s = filter (\<lambda>c. c \<notin> set cls) s"

definition REGEX_META :: string where
  \<comment> \<open>the class \<open>[\\^$.*+?()[\]{}|]\<close>: backslash and the regular-expression metacharacters\<close>
  "REGEX_META = CHR 0x5C # ''^$.*+?()[]{}|''"

definition GLOB_CHARS :: string where
  \<comment> \<open>the class \<open>[*?[\]{}]\<close>\<close>
  "GLOB_CHARS = ''*?[]{}''"

definition QUOTES :: string where
  \<comment> \<open>the class \<open>['"]\<close>: single and double quote\<close>
  "QUOTES = [CHR 0x27, CHR 0x22]"

definition is_word :: "char \<Rightarrow> bool" where
  \<comment> \<open>the class \<open>\w\<close>: ASCII letters, digits and underscore\<close>
  "is_word c = (c \<in> set ''abcdefghijklmnopqrstuvwxyzABCDEFGHIJKLMNOPQRSTUVWXYZ0123456789_'')"

definition is_digit :: "char \<Rightarrow> bool" where
  \<comment> \<open>the class \<open>\d\<close>\<close>
  "is_digit c = (c \<in> set ''0123456789'')"

definition is_line_terminator :: "char \<Rightarrow> bool" where
  \<comment> \<open>what \<open>.\<close> in a regular expression does not match: line feed and carriage return\<close>
  "is_line_terminator c = (c = CHR 0x0A \<or> c = CHR 0x0D)"

definition strip_ext :: "string \<Rightarrow> string" where
  \<comment> \<open>\<open>s.replace(/\.\w+$/, '')\<close>: the match, if any, is the dot before the longest run of
      word characters that ends the string, and that run, which must not be empty\<close>
  "strip_ext s =
     (case dropWhile is_word (rev s) of
        [] \<Rightarrow> s
      | c # front \<Rightarrow>
          if c = CHR ''.'' \<and> takeWhile is_word (rev s) \<noteq> [] then rev front else s)"

fun uniq_from :: "'a list \<Rightarrow> 'a list \<Rightarrow> 'a list" where
  \<comment> \<open>\<open>[...new Set(xs)]\<close>: the first occurrence of each element, in order; the first
      argument lists the elements already in the set\<close>
  "uniq_from seen [] = []"
| "uniq_from seen (x # xs) =
     (if x \<in> set seen then uniq_from seen xs else x # uniq_from (x # seen) xs)"

definition uniq :: "'a list \<Rightarrow> 'a list" where
  "uniq xs = uniq_from [] xs"

section \<open>Objects of unknown shape\<close>

text \<open>
  A tool's \<open>input\<close> is a \<open>Record<string, unknown>\<close>; the source probes it with
  \<open>typeof\<close> and \<open>Array.isArray\<close>. A value is one of the kinds these tests tell apart,
  an object a list of its properties. The sources never look at the value of a number.
\<close>

datatype jsval =
    VNull
  | VBool bool
  | VNum int
  | VStr string
  | VArr "jsval list"
  | VObj "(string \<times> jsval) list"

definition str_field :: "(string \<times> jsval) list \<Rightarrow> string \<Rightarrow> string option" where
  \<comment> \<open>\<open>typeof obj.k === 'string' ? obj.k : null\<close>\<close>
  "str_field obj k = (case map_of obj k of Some (VStr s) \<Rightarrow> Some s | _ \<Rightarrow> None)"

section \<open>Node's path module\<close>

text \<open>
  \<open>basename\<close>, \<open>extname\<close> and \<open>resolve\<close> are functions of Node's library, on a POSIX
  system, where the separator \<open>sep\<close> is the slash. \<open>basename\<close> is the last component
  of the path, trailing slashes ignored. \<open>extname\<close> runs from the last dot of the
  basename to its end, and is empty when the basename has no dot, when its only dot is its
  first character, and for the basename \<open>..\<close>. \<open>resolve\<close> prefixes the working
  directory to a relative path, that of the process if the directory it is given is
  relative too, and normalises the result: empty and \<open>.\<close> segments are dropped, a
  \<open>..\<close> segment removes the segment before it, if there is one.
\<close>

definition sep :: string where
  "sep = ''/''"

definition basename :: "string \<Rightarrow> string" where
  "basename p =
     rev (takeWhile (\<lambda>c. c \<noteq> CHR ''/'') (dropWhile (\<lambda>c. c = CHR ''/'') (rev p)))"

definition extname :: "string \<Rightarrow> string" where
  "extname p =
     (let b = basename p;
          after_dot = takeWhile (\<lambda>c. c \<noteq> CHR ''.'') (rev b)
      in if CHR ''.'' \<notin> set b then []
         else if b = ''..'' then []
         else if length after_dot + 1 = length b then []
         else CHR ''.'' # rev after_dot)"

definition is_absolute :: "string \<Rightarrow> bool" where
  "is_absolute p = (case p of [] \<Rightarrow> False | c # _ \<Rightarrow> c = CHR ''/'')"

fun normalize_segments :: "string list \<Rightarrow> string list \<Rightarrow> string list" where
  \<comment> \<open>the first argument is the stack of segments kept so far, the last one first\<close>
  "normalize_segments kept [] = rev kept"
| "normalize_segments kept (s # ss) =
     (if s = [] \<or> s = ''.'' then normalize_segments kept ss
      else if s = ''..'' then normalize_segments (case kept of [] \<Rightarrow> [] | _ # k \<Rightarrow> k) ss
      else normalize_segments (s # kept) ss)"

definition resolve :: "string \<Rightarrow> string \<Rightarrow> string \<Rightarrow> string" where
  \<comment> \<open>\<open>resolve(dir, file)\<close> in a process whose working directory is \<open>pcwd\<close>\<close>
  "resolve pcwd dir file =
     (let joined = (if is_absolute file then file
                    else if is_absolute dir then dir @ ''/'' @ file
                    else pcwd @ ''/'' @ dir @ ''/'' @ file)
      in CHR ''/'' # join ''/'' (normalize_segments [] (split_on (CHR ''/'') joined)))"


section \<open>mcp-client.ts: the JSON-RPC client\<close>

definition MAX_OUTPUT_CHARS :: nat where
  "MAX_OUTPUT_CHARS = 8 * 1024"

text \<open>
  The interfaces \<open>JsonRpcResponse\<close>, \<open>McpToolResult\<close> and \<open>McpContent\<close> of the
  source, an optional field as an \<open>option\<close>. The source casts the parsed line to
  \<open>JsonRpcResponse\<close> and its \<open>result\<close> to \<open>McpToolResult\<close>; it still tests
  \<open>result?.content\<close>, so the content list is optional here too. The field names of
  \<open>McpContent\<close> and \<open>McpToolResult\<close> carry a prefix, to keep them apart from those of a
  tool event.
\<close>

record McpContent =
  ctype :: string
  ctext :: "string option"
  cisError :: "bool option"

record McpToolResult =
  result_content :: "McpContent list option"
  result_isError :: "bool option"

record JsonRpcError =
  err_code :: int
  err_message :: string

record JsonRpcResponse =
  msg_id :: "int option"
  result :: "McpToolResult option"
  error :: "JsonRpcError option"

definition truthy_flag :: "bool option \<Rightarrow> bool" where
  \<comment> \<open>truthiness of an optional boolean field: \<open>undefined\<close> and \<open>false\<close> are falsy\<close>
  "truthy_flag b = (b = Some True)"

definition truthy_text :: "string option \<Rightarrow> bool" where
  \<comment> \<open>truthiness of an optional string field: \<open>undefined\<close> and \<open>''\<close> are falsy\<close>
  "truthy_text t = (case t of None \<Rightarrow> False | Some s \<Rightarrow> s \<noteq> [])"

definition keep_block :: "McpContent \<Rightarrow> bool" where
  \<comment> \<open>the filter callback \<open>c.type === 'text' && !c.isError && c.text\<close>\<close>
  "keep_block c = (ctype c = ''text'' \<and> \<not> truthy_flag (cisError c) \<and> truthy_text (ctext c))"

definition block_text :: "McpContent \<Rightarrow> string" where
  \<comment> \<open>the map callback \<open>c.text!\<close>, applied to kept blocks only\<close>
  "block_text c = (case ctext c of Some s \<Rightarrow> s | None \<Rightarrow> [])"

definition GITNEXUS_LABEL :: string where
  "GITNEXUS_LABEL = ''[GitNexus]'' @ [NL]"

definition interpret_response :: "JsonRpcResponse \<Rightarrow> string" where
  \<comment> \<open>the body of the \<open>try\<close> in the resolve handler of \<open>callTool\<close>, after \<open>JSON.parse\<close>\<close>
  "interpret_response msg =
     (if error msg \<noteq> None then []
      else (case result msg of
              None \<Rightarrow> []
            | Some res \<Rightarrow>
                (case result_content res of
                   None \<Rightarrow> []
                 | Some blocks \<Rightarrow>
                     if truthy_flag (result_isError res) then []
                     else GITNEXUS_LABEL @
                          take MAX_OUTPUT_CHARS
                            (join [NL] (map block_text (filter keep_block blocks))))))"

definition callTool_resolve :: "(string \<Rightarrow> JsonRpcResponse option) \<Rightarrow> string \<Rightarrow> string" where
  \<comment> \<open>the resolve handler that \<open>callTool\<close> registers; \<open>parse\<close> is \<open>JSON.parse\<close> followed
      by the cast, \<open>None\<close> where the \<open>try\<close> block throws (a line that is not JSON, or
      \<open>null\<close>, whose fields cannot be read), which the \<open>catch\<close> turns into \<open>''\<close>\<close>
  "callTool_resolve parse raw =
     (case parse raw of None \<Rightarrow> [] | Some msg \<Rightarrow> interpret_response msg)"

subsection \<open>The client object and its handlers\<close>

text \<open>
  The two kinds of entries the source stores in \<open>pending\<close>: the waiter of the
  \<open>initialize\<close> handshake (registered under id 1 by \<open>ensureStarted\<close>) and the waiter
  of a \<open>tools/call\<close> request (registered by \<open>callTool\<close>).
\<close>

datatype waiter = Handshake | ToolCall

text \<open>
  The fields of \<open>GitNexusMcpClient\<close>. \<open>proc\<close> and \<open>startPromise\<close> record whether the
  field is non-null. \<open>nextId\<close> is a JavaScript number that only ever holds integers
  counted up from 2, on which \<open>++\<close> is exact (up to 2 to the power 53, which no run
  reaches); it is modelled as an integer.
\<close>

record client =
  proc :: bool
  buffer :: string
  pending :: "int \<rightharpoonup> waiter"
  nextId :: int
  startPromise :: bool

definition new_client :: client where
  "new_client = \<lparr> proc = False, buffer = [], pending = Map.empty, nextId = 2, startPromise = False \<rparr>"

text \<open>What a handler run makes observable outside the client object.\<close>

datatype outcome =
    Started                 \<comment> \<open>the start promise is resolved\<close>
  | StartFailed             \<comment> \<open>the start promise is rejected\<close>
  | Request int             \<comment> \<open>\<open>callTool\<close> takes this id and attempts to write its request to stdin\<close>
  | Resolved int string     \<comment> \<open>the promise of the call with this id is resolved with this string\<close>
  | Returned string         \<comment> \<open>\<open>callTool\<close> returns this string without allocating an id\<close>
  | Killed                  \<comment> \<open>the child process is sent SIGTERM\<close>

definition run_resolve ::
  "(string \<Rightarrow> JsonRpcResponse option) \<Rightarrow> int \<Rightarrow> waiter \<Rightarrow> string \<Rightarrow> client \<Rightarrow> client \<times> outcome list" where
  \<comment> \<open>\<open>p.resolve(line)\<close> for the entry \<open>p\<close> found under id \<open>i\<close>\<close>
  "run_resolve parse i w line c =
     (case w of
        Handshake \<Rightarrow> (c\<lparr>proc := True\<rparr>, [Started])
      | ToolCall \<Rightarrow> (c, [Resolved i (callTool_resolve parse line)]))"

definition run_reject :: "int \<Rightarrow> waiter \<Rightarrow> outcome" where
  \<comment> \<open>\<open>p.reject(err)\<close>: the handshake rejects the start promise, a call resolves to \<open>''\<close>\<close>
  "run_reject i w = (case w of Handshake \<Rightarrow> StartFailed | ToolCall \<Rightarrow> Resolved i [])"

definition process_line ::
  "(string \<Rightarrow> JsonRpcResponse option) \<Rightarrow> string \<Rightarrow> client \<times> outcome list \<Rightarrow> client \<times> outcome list" where
  \<comment> \<open>the body of the \<open>for\<close> loop of the stdout handler, for one complete line\<close>
  "process_line parse line st =
     (let (c, out) = st in
      if trim line = [] then (c, out)
      else (case parse line of
              None \<Rightarrow> (c, out)
            | Some msg \<Rightarrow>
                (case msg_id msg of
                   None \<Rightarrow> (c, out)
                 | Some i \<Rightarrow>
                     (case pending c i of
                        None \<Rightarrow> (c, out)
                      | Some w \<Rightarrow>
                          (let (c', res) = run_resolve parse i w line (c\<lparr>pending := (pending c)(i := None)\<rparr>)
                           in (c', out @ res))))))"

definition on_data ::
  "(string \<Rightarrow> JsonRpcResponse option) \<Rightarrow> client \<Rightarrow> string \<Rightarrow> client \<times> outcome list" where
  \<comment> \<open>the \<open>'data'\<close> handler of the child's stdout\<close>
  "on_data parse c chunk =
     (let lines = split_on NL (buffer c @ chunk);
          c1 = c\<lparr>buffer := (if lines = [] then [] else last lines)\<rparr>
      in fold (process_line parse) (butlast lines) (c1, []))"

fun feed ::
  "(string \<Rightarrow> JsonRpcResponse option) \<Rightarrow> client \<Rightarrow> string list \<Rightarrow> client \<times> outcome list" where
  \<comment> \<open>the handler run on a sequence of chunks, the outcomes in order\<close>
  "feed parse c [] = (c, [])"
| "feed parse c (chunk # chunks) =
     (let (c1, o1) = on_data parse c chunk;
          (c2, o2) = feed parse c1 chunks
      in (c2, o1 @ o2))"

definition reject_all :: "(int \<rightharpoonup> waiter) \<Rightarrow> int list \<Rightarrow> outcome list" where
  \<comment> \<open>\<open>for (const p of this.pending.values()) p.reject(...)\<close>, the keys in the order given\<close>
  "reject_all pend ks = concat (map (\<lambda>k. case pend k of None \<Rightarrow> [] | Some w \<Rightarrow> [run_reject k w]) ks)"

definition on_close :: "int list \<Rightarrow> client \<Rightarrow> client \<times> outcome list" where
  \<comment> \<open>the \<open>'close'\<close> handler of the child; \<open>ks\<close> lists the keys of \<open>pending\<close> in
      insertion order\<close>
  "on_close ks c =
     (c\<lparr>proc := False, startPromise := False, pending := Map.empty\<rparr>, reject_all (pending c) ks)"

definition on_error :: "client \<Rightarrow> client \<times> outcome list" where
  \<comment> \<open>the \<open>'error'\<close> handler of the child\<close>
  "on_error c = (c\<lparr>startPromise := False\<rparr>, [StartFailed])"

definition stop :: "int list \<Rightarrow> client \<Rightarrow> client \<times> outcome list" where
  "stop ks c =
     (c\<lparr>proc := False, startPromise := False, pending := Map.empty\<rparr>,
      (if proc c then [Killed] else []) @ reject_all (pending c) ks)"

definition ensureStarted :: "client \<Rightarrow> client" where
  \<comment> \<open>the synchronous part of \<open>ensureStarted\<close>: nothing when a process or a start is
      there, else the spawn, the waiter under id 1 and the \<open>initialize\<close> request\<close>
  "ensureStarted c =
     (if proc c then c
      else if startPromise c then c
      else c\<lparr>startPromise := True, pending := (pending c)(1 \<mapsto> Handshake)\<rparr>)"

definition callTool :: "bool \<Rightarrow> bool \<Rightarrow> client \<Rightarrow> client \<times> outcome list" where
  \<comment> \<open>\<open>callTool\<close> from the point where \<open>await this.ensureStarted(cwd)\<close> has settled:
      \<open>started\<close> tells whether it resolved, \<open>write_ok\<close> whether the write to stdin
      returns rather than throws\<close>
  "callTool started write_ok c =
     (if \<not> started then (c, [Returned []])
      else if \<not> proc c then (c, [Returned []])
      else (let i = nextId c;
                c1 = c\<lparr>nextId := nextId c + 1\<rparr>;
                c2 = c1\<lparr>pending := (pending c1)(i \<mapsto> ToolCall)\<rparr>
            in if write_ok then (c2, [Request i])
               else (c2\<lparr>pending := (pending c2)(i := None)\<rparr>, [Request i, Resolved i []])))"

fun request_ids :: "outcome list \<Rightarrow> int list" where
  \<comment> \<open>the ids that \<open>callTool\<close> took, in order\<close>
  "request_ids [] = []"
| "request_ids (Request i # os) = i # request_ids os"
| "request_ids (_ # os) = request_ids os"

text \<open>
  The events the client object sees over its lifetime, and the run of a sequence of
  them from a given state. The key order of \<open>pending\<close> only fixes the order in which
  rejections are reported. Entries are inserted in increasing order of id, the handshake's
  before any call's, so the keys are listed sorted.
\<close>

datatype event =
    EnsureStarted
  | CallTool bool bool
  | Data string
  | Close
  | Error
  | Stop

definition pending_keys :: "client \<Rightarrow> int list" where
  "pending_keys c = filter (\<lambda>k. pending c k \<noteq> None) (map int [0 ..< nat (nextId c)])"

definition step ::
  "(string \<Rightarrow> JsonRpcResponse option) \<Rightarrow> client \<Rightarrow> event \<Rightarrow> client \<times> outcome list" where
  "step parse c e =
     (case e of
        EnsureStarted \<Rightarrow> (ensureStarted c, [])
      | CallTool started write_ok \<Rightarrow> callTool started write_ok c
      | Data chunk \<Rightarrow> on_data parse c chunk
      | Close \<Rightarrow> on_close (pending_keys c) c
      | Error \<Rightarrow> on_error c
      | Stop \<Rightarrow> stop (pending_keys c) c)"

fun run ::
  "(string \<Rightarrow> JsonRpcResponse option) \<Rightarrow> client \<Rightarrow> event list \<Rightarrow> client \<times> outcome list" where
  "run parse c [] = (c, [])"
| "run parse c (e # es) =
     (let (c1, o1) = step parse c e;
          (c2, o2) = run parse c1 es
      in (c2, o1 @ o2))"

definition process_complete_lines ::
  "(string \<Rightarrow> JsonRpcResponse option) \<Rightarrow> client \<Rightarrow> string \<Rightarrow> client \<times> outcome list" where
  \<comment> \<open>the framing rule in the spec's words: split the text on newline, process every
      complete line in order, retain the final partial segment\<close>
  "process_complete_lines parse c s =
     (let ls = split_on NL s;
          (c', out) = fold (process_line parse) (butlast ls) (c, [])
      in (c'\<lparr>buffer := last ls\<rparr>, out))"


text \<open>
  Predicates used when reasoning about the strings a call can produce, and a sample
  parser and event sequence on which the theorems below are instantiated.
\<close>

definition labelled :: "(string \<Rightarrow> JsonRpcResponse option) \<Rightarrow> string \<Rightarrow> bool" where
  "labelled parse s = (s = [] \<or> (\<exists>raw msg res blocks.
       parse raw = Some msg \<and> result msg = Some res \<and> result_content res = Some blocks \<and>
       s = ''[GitNexus]'' @ [CHR 0x0A] @ take 8192 (join [CHR 0x0A] (map block_text (filter keep_block blocks)))))"

definition all_labelled :: "(string \<Rightarrow> JsonRpcResponse option) \<Rightarrow> outcome list \<Rightarrow> bool" where
  "all_labelled parse outs = (\<forall>i s. Resolved i s \<in> set outs \<or> Returned s \<in> set outs \<longrightarrow> labelled parse s)"

definition example_response :: JsonRpcResponse where
  "example_response =
     \<lparr>msg_id = Some 2,
      result = Some \<lparr>result_content = Some [\<lparr>ctype = ''text'', ctext = Some ''hello'', cisError = None\<rparr>],
                     result_isError = None\<rparr>,
      error = None\<rparr>"

definition empty_response :: JsonRpcResponse where
  "empty_response = \<lparr>msg_id = Some 2, result = Some \<lparr>result_content = Some [], result_isError = None\<rparr>, error = None\<rparr>"

definition example_parse :: "string \<Rightarrow> JsonRpcResponse option" where
  \<comment> \<open>a parser that knows three lines: the answer to the handshake, a result with one
      text block, and a result with an empty content list\<close>
  "example_parse s =
     (if s = ''h'' then Some \<lparr>msg_id = Some 1, result = None, error = None\<rparr>
      else if s = ''r'' then Some example_response
      else if s = ''e'' then Some empty_response
      else None)"

definition example_session :: "event list" where
  "example_session =
     [EnsureStarted, Data (''h'' @ [NL]), CallTool True True, Data (''r'' @ [NL]), Stop,
      EnsureStarted, Data (''h'' @ [NL]), CallTool True False]"

definition example_client :: client where
  "example_client = \<lparr> proc = True, buffer = [], pending = [2 \<mapsto> ToolCall], nextId = 3, startPromise = True \<rparr>"

section \<open>gitnexus.ts: pattern extraction\<close>

definition CODE_EXTENSIONS :: "string list" where
  "CODE_EXTENSIONS =
     [''.sol'', ''.ts'', ''.tsx'', ''.js'', ''.jsx'', ''.py'', ''.go'', ''.rs'', ''.java'',
      ''.kt'', ''.swift'', ''.c'', ''.cpp'', ''.h'', ''.hpp'', ''.cs'', ''.rb'', ''.php'',
      ''.vy'', ''.fe'', ''.huff'']"

definition starts_with_dash :: "string \<Rightarrow> bool" where
  \<comment> \<open>\<open>tok.startsWith('-')\<close>\<close>
  "starts_with_dash tok = prefix ''-'' tok"

definition FILE_CMDS :: "string list" where
  "FILE_CMDS = [''cat'', ''head'', ''tail'', ''less'', ''wc'']"

fun bash_scan :: "bool \<Rightarrow> bool \<Rightarrow> string list \<Rightarrow> string option" where
  \<comment> \<open>the \<open>for\<close> loop over the tokens of a shell command, from the token at hand on, with
      the flags \<open>foundCmd\<close> and \<open>foundFileCmd\<close>; the result is the value of \<open>pattern\<close> when
      the loop ends, \<open>None\<close> for \<open>null\<close>\<close>
  "bash_scan foundCmd foundFileCmd [] = None"
| "bash_scan foundCmd foundFileCmd (tok # rest) =
     (if tok = ''grep'' \<or> tok = ''rg'' then bash_scan True False rest
      else if foundCmd then
        (if starts_with_dash tok then bash_scan foundCmd foundFileCmd rest
         else Some (strip_chars REGEX_META (strip_chars QUOTES tok)))
      else if tok \<in> set FILE_CMDS then bash_scan False True rest
      else if foundFileCmd then
        (if starts_with_dash tok then bash_scan foundCmd foundFileCmd rest
         else (let unquoted = strip_chars QUOTES tok
               in if extname unquoted \<in> set CODE_EXTENSIONS
                  then Some (strip_ext (basename unquoted)) else None))
      else if tok = ''find'' then bash_scan False False rest
      else if (tok = ''-name'' \<or> tok = ''-iname'') \<and> (case rest of [] \<Rightarrow> False | nxt # _ \<Rightarrow> nxt \<noteq> []) then
        (let unquoted = strip_chars QUOTES (hd rest);
             seg = strip_chars GLOB_CHARS (strip_ext (basename unquoted))
         in if length seg \<ge> 3 then Some seg else None)
      else bash_scan foundCmd foundFileCmd rest)"

definition TRIGGERS :: "string list" where
  \<comment> \<open>the tokens on which a rule of the loop fires or arms a flag\<close>
  "TRIGGERS = [''grep'', ''rg'', ''cat'', ''head'', ''tail'', ''less'', ''wc'', ''-name'', ''-iname'']"

definition find_raw :: "(string \<times> jsval) list \<Rightarrow> string option" where
  \<comment> \<open>the field of a \<open>find\<close> input that holds the glob: \<open>pattern\<close>, else \<open>glob\<close>, else
      \<open>path\<close>, the first that is a string\<close>
  "find_raw inp =
     (case str_field inp ''pattern'' of
        Some s \<Rightarrow> Some s
      | None \<Rightarrow> (case str_field inp ''glob'' of
                   Some s \<Rightarrow> Some s
                 | None \<Rightarrow> str_field inp ''path''))"

definition primary_pattern :: "string \<Rightarrow> (string \<times> jsval) list \<Rightarrow> string option" where
  \<comment> \<open>the value of \<open>pattern\<close> in \<open>extractPattern\<close> before the final length test\<close>
  "primary_pattern toolName inp =
     (if toolName = ''grep'' then
        (case str_field inp ''pattern'' of
           None \<Rightarrow> None
         | Some raw \<Rightarrow> if raw = [] then None else Some (strip_chars REGEX_META raw))
      else if toolName = ''find'' then
        (case find_raw inp of
           None \<Rightarrow> None
         | Some raw \<Rightarrow>
             if raw = [] then None
             else (let seg = strip_chars GLOB_CHARS (strip_ext (basename raw))
                   in if seg = [] then None else Some seg))
      else if toolName = ''bash'' then
        (let cmd = (case str_field inp ''command'' of Some s \<Rightarrow> s | None \<Rightarrow> [])
         in bash_scan False False (split_ws cmd))
      else if toolName = ''read'' then
        (case str_field inp ''path'' of
           None \<Rightarrow> None
         | Some raw \<Rightarrow>
             if raw \<noteq> [] \<and> extname raw \<in> set CODE_EXTENSIONS
             then Some (strip_ext (basename raw)) else None)
      else None)"

definition extractPattern :: "string \<Rightarrow> (string \<times> jsval) list \<Rightarrow> string option" where
  "extractPattern toolName inp =
     (case primary_pattern toolName inp of
        None \<Rightarrow> None
      | Some p \<Rightarrow> if p = [] \<or> length p < 3 then None else Some p)"

text \<open>A content block of a tool result, \<open>{ type: string; text?: string }\<close>.\<close>

record content_block =
  btype :: string
  btext :: "string option"

definition content_text :: "content_block list \<Rightarrow> string" where
  \<comment> \<open>\<open>content.map(c => c.text ?? '').join('\n')\<close>\<close>
  "content_text blocks = join [NL] (map (\<lambda>c. case btext c of Some t \<Rightarrow> t | None \<Rightarrow> []) blocks)"

text \<open>An element \<open>{ path, pattern }\<close> of the result of \<open>extractFilesFromReadMany\<close>.\<close>

record file_pattern =
  path :: string
  pattern :: string

definition add :: "string \<Rightarrow> string set \<times> file_pattern list \<Rightarrow> string set \<times> file_pattern list" where
  \<comment> \<open>the closure \<open>add\<close>, on the variables \<open>seen\<close> and \<open>results\<close> it captures\<close>
  "add filePath st =
     (let (seen, results) = st; ext = extname filePath
      in if ext \<notin> set CODE_EXTENSIONS then st
         else (let pat = strip_ext (basename filePath)
               in if length pat < 3 \<or> pat \<in> seen then st
                  else (insert pat seen, results @ [\<lparr>path = filePath, pattern = pat\<rparr>])))"

fun file_path_of :: "jsval \<Rightarrow> string option" where
  \<comment> \<open>\<open>f.path\<close> where \<open>f\<close> is an object, not \<open>null\<close>, whose \<open>path\<close> is a string\<close>
  "file_path_of (VObj props) = str_field props ''path''"
| "file_path_of _ = None"

definition input_files :: "(string \<times> jsval) list \<Rightarrow> jsval list" where
  \<comment> \<open>\<open>Array.isArray(input.files) ? input.files : []\<close>\<close>
  "input_files inp = (case map_of inp ''files'' of Some (VArr fs) \<Rightarrow> fs | _ \<Rightarrow> [])"

definition at_path :: "string \<Rightarrow> string option" where
  \<comment> \<open>\<open>line.match(/^@(.+)$/)\<close>, the group trimmed: an \<open>@\<close>, then at least one character,
      none of them a line terminator, up to the end of the line\<close>
  "at_path line =
     (case line of
        [] \<Rightarrow> None
      | c # rest \<Rightarrow>
          if c = CHR ''@'' \<and> rest \<noteq> [] \<and> \<not> list_ex is_line_terminator rest
          then Some (trim rest) else None)"

definition extractFilesFromReadMany ::
  "(string \<times> jsval) list \<Rightarrow> content_block list \<Rightarrow> file_pattern list" where
  "extractFilesFromReadMany inp blocks =
     (let st0 = ({}, []);
          st1 = fold (\<lambda>f st. case file_path_of f of Some p \<Rightarrow> add p st | None \<Rightarrow> st)
                     (input_files inp) st0;
          st2 = (if snd st1 = []
                 then fold (\<lambda>line st. case at_path line of Some p \<Rightarrow> add p st | None \<Rightarrow> st)
                           (split_on NL (content_text blocks)) st1
                 else st1)
      in snd st2)"

definition grep_line_path :: "string \<Rightarrow> string option" where
  \<comment> \<open>group 1 of \<open>line.match(/^([^\n:]+\.\w+):\d+:/)\<close>. The group cannot hold a colon and
      a colon follows it, so it is the text before the first colon; that text must end in
      a dot and a non-empty run of word characters, with at least one character before the
      dot; after the colon come at least one digit and a colon\<close>
  "grep_line_path line =
     (let seg = takeWhile (\<lambda>c. c \<noteq> CHR '':'') line;
          after = dropWhile (\<lambda>c. c \<noteq> CHR '':'') line;
          word = takeWhile is_word (rev seg);
          front = dropWhile is_word (rev seg)
      in case after of
           [] \<Rightarrow> None
         | _ # num \<Rightarrow>
             if word \<noteq> [] \<and> (case front of [] \<Rightarrow> False | d # stem \<Rightarrow> d = CHR ''.'' \<and> stem \<noteq> [])
                \<and> NL \<notin> set seg
                \<and> takeWhile is_digit num \<noteq> []
                \<and> (case dropWhile is_digit num of [] \<Rightarrow> False | e # _ \<Rightarrow> e = CHR '':'')
             then Some seg else None)"

fun scan_lines :: "nat \<Rightarrow> string list \<Rightarrow> string set \<Rightarrow> string list \<Rightarrow> string list" where
  \<comment> \<open>the \<open>for\<close> loop of \<open>extractFilePatternsFromContent\<close> over the lines left, on the
      variables \<open>seen\<close> and \<open>results\<close>\<close>
  "scan_lines limit [] seen results = results"
| "scan_lines limit (line # lines) seen results =
     (case grep_line_path line of
        None \<Rightarrow> scan_lines limit lines seen results
      | Some m \<Rightarrow>
          (let base = strip_ext (basename m);
               fresh = (length base \<ge> 3 \<and> base \<notin> seen);
               seen' = (if fresh then insert base seen else seen);
               results' = (if fresh then results @ [base] else results)
           in if length results' \<ge> limit then results'
              else scan_lines limit lines seen' results'))"

definition extractFilePatternsFromContent :: "content_block list \<Rightarrow> nat \<Rightarrow> string list" where
  "extractFilePatternsFromContent blocks limit =
     scan_lines limit (split_on NL (content_text blocks)) {} []"

section \<open>gitnexus.ts: the path guard and the one-shot invoker\<close>

definition safeResolvePath :: "string \<Rightarrow> string \<Rightarrow> string \<Rightarrow> string option" where
  \<comment> \<open>\<open>safeResolvePath(file, cwd)\<close> in a process whose working directory is \<open>pcwd\<close>\<close>
  "safeResolvePath pcwd file cwd =
     (let resolved = resolve pcwd cwd file
      in if prefix (cwd @ sep) resolved \<or> resolved = cwd then Some resolved else None)"

text \<open>
  \<open>runAugment\<close> spawns the child and registers three handlers and a timer; what it
  returns is a promise that only \<open>resolve_\<close> settles. The state holds the variables
  \<open>output\<close> and \<open>done\<close> of the closure (as \<open>stderr_output\<close> and \<open>is_done\<close>), the value the promise is resolved with (the first
  call of \<open>resolve_\<close> fixes it), whether the child has been sent SIGTERM, and whether the
  timer is still set. The events are the calls of the handlers by the runtime. The timer
  fires at most once, and not after \<open>clearTimeout\<close>.
\<close>

record augment_state =
  stderr_output :: string
  is_done :: bool
  resolved :: "string option"
  sigterm_sent :: bool
  timer_set :: bool

datatype augment_event =
    Timeout               \<comment> \<open>the timer set for \<open>AUGMENT_TIMEOUT\<close> fires\<close>
  | StderrData string     \<comment> \<open>a chunk arrives on the child's stderr\<close>
  | ProcClose "int option" \<comment> \<open>the child's \<open>'close'\<close> event with its exit code, or \<open>null\<close>\<close>
  | ProcError             \<comment> \<open>the child's \<open>'error'\<close> event\<close>

definition augment_start :: augment_state where
  "augment_start = \<lparr> stderr_output = [], is_done = False, resolved = None, sigterm_sent = False, timer_set = True \<rparr>"

definition resolve_promise :: "string \<Rightarrow> augment_state \<Rightarrow> augment_state" where
  \<comment> \<open>\<open>resolve_(v)\<close>: a promise keeps the first value it is resolved with\<close>
  "resolve_promise v st = (case resolved st of None \<Rightarrow> st\<lparr>resolved := Some v\<rparr> | Some _ \<Rightarrow> st)"

definition augment_step :: "augment_state \<Rightarrow> augment_event \<Rightarrow> augment_state" where
  "augment_step st e =
     (case e of
        Timeout \<Rightarrow>
          if \<not> timer_set st then st
          else (let st1 = st\<lparr>timer_set := False\<rparr>
                in if \<not> is_done st1
                   then resolve_promise [] (st1\<lparr>is_done := True, sigterm_sent := True\<rparr>)
                   else st1)
      | StderrData chunk \<Rightarrow> st\<lparr>stderr_output := stderr_output st @ chunk\<rparr>
      | ProcClose code \<Rightarrow>
          if is_done st then st
          else resolve_promise
                 (if code = Some 0 then take MAX_OUTPUT_CHARS (trim (stderr_output st)) else [])
                 (st\<lparr>is_done := True, timer_set := False\<rparr>)
      | ProcError \<Rightarrow>
          if \<not> is_done st then resolve_promise [] (st\<lparr>is_done := True, timer_set := False\<rparr>)
          else st)"

definition runAugment :: "augment_event list \<Rightarrow> augment_state" where
  \<comment> \<open>the state of one \<open>runAugment\<close> call after the runtime has delivered these events\<close>
  "runAugment evs = foldl augment_step augment_start evs"

definition settles :: "augment_event \<Rightarrow> bool" where
  \<comment> \<open>the events other than a chunk of output\<close>
  "settles e = (case e of StderrData _ \<Rightarrow> False | _ \<Rightarrow> True)"

definition settled_value :: "string \<Rightarrow> augment_event \<Rightarrow> string" where
  \<comment> \<open>what the promise is resolved with when this event is the first to settle it, the
      output captured so far being \<open>out\<close>\<close>
  "settled_value out e =
     (case e of ProcClose code \<Rightarrow> (if code = Some 0 then take 8192 (trim out) else []) | _ \<Rightarrow> [])"

text \<open>
  The batch rule in the spec's words, to compare \<open>extractFilesFromReadMany\<close> with: for
  every path with a code extension derive the extension-stripped basename, discard a
  derived name shorter than 3 characters, keep only the first occurrence of each derived
  name.
\<close>

definition derive_entry :: "string \<Rightarrow> file_pattern option" where
  "derive_entry p =
     (if extname p \<in> set CODE_EXTENSIONS \<and> length (strip_ext (basename p)) \<ge> 3
      then Some \<lparr>path = p, pattern = strip_ext (basename p)\<rparr> else None)"

fun first_occurrences :: "string list \<Rightarrow> file_pattern list \<Rightarrow> file_pattern list" where
  \<comment> \<open>the entries whose pattern occurs neither in \<open>seen\<close> nor in an earlier entry\<close>
  "first_occurrences seen [] = []"
| "first_occurrences seen (e # es) =
     (if pattern e \<in> set seen then first_occurrences seen es
      else e # first_occurrences (pattern e # seen) es)"

definition batch_of :: "string list \<Rightarrow> file_pattern list" where
  "batch_of paths = first_occurrences [] (List.map_filter derive_entry paths)"

definition files_paths :: "(string \<times> jsval) list \<Rightarrow> string list" where
  \<comment> \<open>the \<open>path\<close> of every entry of the input's \<open>files\<close> list that has one\<close>
  "files_paths inp = List.map_filter file_path_of (input_files inp)"

definition at_paths :: "content_block list \<Rightarrow> string list" where
  \<comment> \<open>the paths of the lines \<open>@<path>\<close> of the result text\<close>
  "at_paths blocks = List.map_filter at_path (split_on NL (content_text blocks))"


section \<open>index.ts: the tool_result hook\<close>

definition SEARCH_TOOLS :: "string list" where
  "SEARCH_TOOLS = [''grep'', ''find'', ''bash'', ''read'', ''read_many'']"

text \<open>The event the host hands to the hook, and the module variables of a session.\<close>

record tool_event =
  toolName :: string
  input :: "(string \<times> jsval) list"
  content :: "content_block list"

record session =
  augmentEnabled :: bool
  hookFires :: nat
  augmentHits :: nat
  augmentedCache :: "string set"
  sessionCwd :: string

definition last_segment :: "string \<Rightarrow> string" where
  \<comment> \<open>\<open>p.split('/').pop()\<close>\<close>
  "last_segment p = last (split_on (CHR ''/'') p)"

definition text_block :: "string \<Rightarrow> content_block" where
  \<comment> \<open>\<open>{ type: 'text', text: t }\<close>\<close>
  "text_block t = \<lparr> btype = ''text'', btext = Some t \<rparr>"

definition candidates_of :: "tool_event \<Rightarrow> string list" where
  \<comment> \<open>\<open>[...new Set([primary, ...secondary].filter(p => !!p))]\<close>\<close>
  "candidates_of ev =
     (let primary = extractPattern (toolName ev) (input ev);
          secondary = (if toolName ev = ''grep'' \<or> toolName ev = ''bash''
                       then extractFilePatternsFromContent (content ev) 2 else [])
      in uniq (filter (\<lambda>p. p \<noteq> [])
                      ((case primary of None \<Rightarrow> [] | Some p \<Rightarrow> [p]) @ secondary)))"

definition read_many_result ::
  "(string \<Rightarrow> string \<Rightarrow> string) \<Rightarrow> string \<Rightarrow> session \<Rightarrow> tool_event
     \<Rightarrow> session \<times> string list \<times> content_block list option" where
  \<comment> \<open>the \<open>read_many\<close> branch of the hook\<close>
  "read_many_result augment cwd s ev =
     (let files = extractFilesFromReadMany (input ev) (content ev);
          fresh = take 5 (filter (\<lambda>f. pattern f \<notin> augmentedCache s) files)
      in if fresh = [] then (s, [], None)
         else
           (let s1 = s\<lparr>augmentedCache := augmentedCache s \<union> set (map pattern fresh)\<rparr>;
                results = map (\<lambda>f. (f, augment (pattern f) cwd)) fresh;
                sections = filter (\<lambda>r. snd r \<noteq> []) results
            in if sections = [] then (s1, map pattern fresh, None)
               else
                 (let label = (if length sections = 1
                               then ''[GitNexus: '' @ last_segment (path (fst (hd sections))) @ '']''
                               else ''[GitNexus]'');
                      body = (if length sections = 1 then snd (hd sections)
                              else join [NL, NL]
                                     (map (\<lambda>r. ''### '' @ last_segment (path (fst r)) @ [NL] @ snd r)
                                          sections))
                  in (s1\<lparr>augmentHits := augmentHits s1 + 1\<rparr>,
                      map pattern fresh,
                      Some (content ev @ [text_block ([NL, NL] @ label @ [NL] @ body)])))))"

definition single_pattern_result ::
  "(string \<Rightarrow> string \<Rightarrow> string) \<Rightarrow> string \<Rightarrow> session \<Rightarrow> tool_event
     \<Rightarrow> session \<times> string list \<times> content_block list option" where
  \<comment> \<open>the branch of the hook for the other search tools\<close>
  "single_pattern_result augment cwd s ev =
     (let candidates = candidates_of ev;
          fresh = filter (\<lambda>p. p \<notin> augmentedCache s) candidates
      in if fresh = [] then (s, [], None)
         else
           (let toRun = take 3 fresh;
                s1 = s\<lparr>augmentedCache := augmentedCache s \<union> set toRun\<rparr>;
                results = map (\<lambda>p. augment p cwd) toRun;
                combined = join [NL, NL] (filter (\<lambda>r. r \<noteq> []) results)
            in if combined = [] then (s1, toRun, None)
               else (s1\<lparr>augmentHits := augmentHits s1 + 1\<rparr>,
                     toRun,
                     Some (content ev @
                           [text_block ([NL, NL] @ ''[GitNexus: '' @ join '', '' toRun @ '']'' @ [NL] @ combined)]))))"

definition tool_result ::
  "(string \<Rightarrow> bool) \<Rightarrow> (string \<Rightarrow> string \<Rightarrow> string) \<Rightarrow> string \<Rightarrow> session \<Rightarrow> tool_event
     \<Rightarrow> session \<times> string list \<times> content_block list option" where
  \<comment> \<open>the handler of \<open>tool_result\<close>. \<open>findGitNexusIndex\<close> tells whether a directory has an
      index; \<open>augment p cwd\<close> is the string that the \<open>runAugment(p, cwd)\<close> of this run
      resolves to; \<open>ctx_cwd\<close> is \<open>ctx.cwd\<close>. The result is the session after the run, the
      patterns for which \<open>runAugment\<close> was called, in order, and the content returned to
      the host, \<open>None\<close> when the handler returns nothing\<close>
  "tool_result findGitNexusIndex augment ctx_cwd s ev =
     (if \<not> augmentEnabled s then (s, [], None)
      else if toolName ev \<notin> set SEARCH_TOOLS then (s, [], None)
      else
        (let s1 = s\<lparr>hookFires := hookFires s + 1\<rparr>;
             cwd = (if sessionCwd s \<noteq> [] then sessionCwd s else ctx_cwd)
         in if \<not> findGitNexusIndex cwd then (s1, [], None)
            else if toolName ev = ''read_many'' then read_many_result augment cwd s1 ev
            else single_pattern_result augment cwd s1 ev))"

section \<open>tools.ts: the gitnexus_context tool\<close>

text \<open>The parameters of the tool; \<open>file_arg\<close> is the parameter \<open>file\<close>.\<close>

record context_params =
  name :: "string option"
  uid :: "string option"
  file_arg :: "string option"
  include_content :: "bool option"

definition NO_INDEX :: string where
  "NO_INDEX = ''No GitNexus index found. Run: /gitnexus analyze''"

definition gitnexus_context ::
  "(string \<Rightarrow> bool) \<Rightarrow> (context_params \<Rightarrow> string) \<Rightarrow> string \<Rightarrow> context_params \<Rightarrow> string
     \<Rightarrow> context_params list \<times> string" where
  \<comment> \<open>\<open>execute\<close> of the tool. \<open>backend args\<close> is what \<open>mcpClient.callTool('context', args,
      ctx.cwd)\<close> resolves to; the result lists the arguments of the calls of the backend
      and gives the text of the answer\<close>
  "gitnexus_context findGitNexusIndex backend pcwd params cwd =
     (if \<not> findGitNexusIndex cwd then ([], NO_INDEX)
      else if \<not> truthy_text (name params) \<and> \<not> truthy_text (uid params)
      then ([], ''Provide either name or uid.'')
      else
        (let checked =
               (if truthy_text (file_arg params)
                then (case safeResolvePath pcwd (case file_arg params of Some f \<Rightarrow> f | None \<Rightarrow> []) cwd of
                        None \<Rightarrow> None
                      | Some safe \<Rightarrow> if safe = [] then None else Some (params\<lparr>file_arg := Some safe\<rparr>))
                else Some params)
         in case checked of
              None \<Rightarrow> ([], ''Invalid file path.'')
            | Some args \<Rightarrow>
                (let out = backend args
                 in ([args], if out \<noteq> [] then out else ''No results.''))))"


section \<open>Sample inputs\<close>

text \<open>Concrete events, sessions and lookups on which the theorems are instantiated.\<close>

definition example_session0 :: session where
  "example_session0 =
     \<lparr> augmentEnabled = True, hookFires = 0, augmentHits = 0, augmentedCache = {}, sessionCwd = [] \<rparr>"

definition example_grep_event :: tool_event where
  "example_grep_event =
     \<lparr> toolName = ''grep'',
       input = [(''pattern'', VStr ''withdraw'')],
       content = [\<lparr> btype = ''text'', btext = Some ''src/vault.sol:12:function withdraw'' \<rparr>] \<rparr>"

definition example_augment :: "string \<Rightarrow> string \<Rightarrow> string" where
  "example_augment p cwd = (if p = ''withdraw'' then ''callers: deposit'' else [])"

definition example_params :: context_params where
  "example_params = \<lparr> name = Some ''withdraw'', uid = None, file_arg = Some ''../proj2/x.ts'', include_content = None \<rparr>"

definition example_input :: "(string \<times> jsval) list" where
  "example_input = [(''command'', VStr ''grep -rn hello src/''), (''pattern'', VStr ''with.draw('')]"

definition six_files :: "(string \<times> jsval) list" where
  "six_files =
     [(''files'', VArr (map (\<lambda>p. VObj [(''path'', VStr p)])
        [''src/aa1.ts'', ''aa2.ts'', ''aa3.ts'', ''lib/aa1.sol'', ''aa4.ts'', ''aa5.ts'', ''aa6.ts'', ''notes.txt'']))]"

definition read_many_event :: tool_event where
  "read_many_event = \<lparr> toolName = ''read_many'', input = six_files, content = [] \<rparr>"

definition at_blocks :: "content_block list" where
  "at_blocks =
     [\<lparr> btype = ''text'', btext = Some (''@src/main.ts'' @ [NL] @ ''export {}'' @ [NL] @ ''@ lib/util.py '') \<rparr>,
      \<lparr> btype = ''image'', btext = None \<rparr>]"


section \<open>Properties of the JSON-RPC client\<close>

subsection \<open>Framing of the stdout stream\<close>

lemma split_on_nonempty: "split_on d s \<noteq> []"
  by (induction s) (auto split: list.splits)

lemma split_on_append:
  "split_on d (a @ b) = butlast (split_on d a) @ (last (split_on d a) @ hd (split_on d b)) # tl (split_on d b)"
proof (induction a)
  case Nil
  then show ?case using split_on_nonempty[of d b] by (cases "split_on d b") auto
next
  case (Cons c a)
  show ?case
  proof (cases "c = d")
    case True
    then show ?thesis using Cons split_on_nonempty[of d a] by simp
  next
    case False
    obtain w ws where a: "split_on d a = w # ws" using split_on_nonempty[of d a] by (cases "split_on d a") auto
    show ?thesis
    proof (cases ws)
      case Nil
      then show ?thesis using False a Cons by simp
    next
      case (Cons v vs)
      then show ?thesis using False a Cons.IH by simp
    qed
  qed
qed

lemma split_on_no_sep: "d \<notin> set s \<Longrightarrow> split_on d s = [s]"
  by (induction s) auto

lemma last_split_on_no_sep: "d \<notin> set (last (split_on d s))"
  by (induction s) (auto split: list.splits simp: split_on_nonempty)

lemma process_line_buffer:
  "process_line parse line (c\<lparr>buffer := b\<rparr>, out) = (let (c', out') = process_line parse line (c, out) in (c'\<lparr>buffer := b\<rparr>, out'))"
  by (auto simp: process_line_def run_resolve_def Let_def split: option.splits waiter.splits)

lemma process_line_out:
  "process_line parse line (c, out) = (let (c', out') = process_line parse line (c, []) in (c', out @ out'))"
  by (auto simp: process_line_def run_resolve_def Let_def split: option.splits waiter.splits)

lemma fold_process_line_buffer:
  "fold (process_line parse) ls (c\<lparr>buffer := b\<rparr>, out) =
   (let (c', out') = fold (process_line parse) ls (c, out) in (c'\<lparr>buffer := b\<rparr>, out'))"
proof (induction ls arbitrary: c out)
  case Nil
  then show ?case by simp
next
  case (Cons l ls)
  obtain c1 o1 where p: "process_line parse l (c, out) = (c1, o1)" by (cases "process_line parse l (c, out)")
  have "process_line parse l (c\<lparr>buffer := b\<rparr>, out) = (c1\<lparr>buffer := b\<rparr>, o1)"
    using process_line_buffer[where parse=parse and line=l and c=c and b=b and out=out] p by simp
  then show ?case using Cons.IH[of c1 o1] p by simp
qed

lemma fold_process_line_out:
  "fold (process_line parse) ls (c, out) =
   (let (c', out') = fold (process_line parse) ls (c, []) in (c', out @ out'))"
proof (induction ls arbitrary: c out)
  case Nil
  then show ?case by simp
next
  case (Cons l ls)
  obtain c1 o1 where p: "process_line parse l (c, []) = (c1, o1)" by (cases "process_line parse l (c, [])")
  have q: "process_line parse l (c, out) = (c1, out @ o1)"
    using process_line_out[of parse l c out] p by simp
  obtain c2 o2 where r: "fold (process_line parse) ls (c1, []) = (c2, o2)" by (cases "fold (process_line parse) ls (c1, [])")
  show ?case using Cons.IH[of c1 "out @ o1"] Cons.IH[of c1 o1] p q r by simp
qed

lemma on_data_process_complete_lines: "on_data parse c chunk = process_complete_lines parse c (buffer c @ chunk)"
  unfolding on_data_def process_complete_lines_def Let_def
  using fold_process_line_buffer[where parse=parse and ls="butlast (split_on NL (buffer c @ chunk))" and c=c and b="last (split_on NL (buffer c @ chunk))" and out="[]"]
  by (simp add: split_on_nonempty Let_def)

lemma buffer_process_complete_lines: "buffer (fst (process_complete_lines parse c s)) = last (split_on NL s)"
  unfolding process_complete_lines_def Let_def by (simp split: prod.splits)

lemma feed_process_complete_lines:
  "NL \<notin> set (buffer c) \<Longrightarrow> feed parse c chunks = process_complete_lines parse c (buffer c @ concat chunks)"
proof (induction chunks arbitrary: c)
  case Nil
  then show ?case by (simp add: process_complete_lines_def split_on_no_sep)
next
  case (Cons ch chs)
  let ?l1 = "split_on NL (buffer c @ ch)"
  let ?l2 = "split_on NL (concat chs)"
  obtain c1 o1 where f1: "fold (process_line parse) (butlast ?l1) (c, []) = (c1, o1)"
    by (cases "fold (process_line parse) (butlast ?l1) (c, [])")
  have od: "on_data parse c ch = (c1\<lparr>buffer := last ?l1\<rparr>, o1)"
    using f1 by (simp add: on_data_process_complete_lines process_complete_lines_def)
  have nb: "NL \<notin> set (buffer (c1\<lparr>buffer := last ?l1\<rparr>))"
    using last_split_on_no_sep[of NL "buffer c @ ch"] by simp
  have ih: "feed parse (c1\<lparr>buffer := last ?l1\<rparr>) chs = process_complete_lines parse (c1\<lparr>buffer := last ?l1\<rparr>) (last ?l1 @ concat chs)"
    using Cons.IH[OF nb] by simp
  have s2: "split_on NL (last ?l1 @ concat chs) = (last ?l1 @ hd ?l2) # tl ?l2"
    using split_on_append[of NL "last ?l1" "concat chs"] split_on_no_sep[OF last_split_on_no_sep[of NL "buffer c @ ch"]]
    by simp
  have s: "split_on NL (buffer c @ ch @ concat chs) = butlast ?l1 @ (last ?l1 @ hd ?l2) # tl ?l2"
    using split_on_append[of NL "buffer c @ ch" "concat chs"] by simp
  let ?m = "(last ?l1 @ hd ?l2) # tl ?l2"
  obtain c2 o2 where f2: "fold (process_line parse) (butlast ?m) (c1, []) = (c2, o2)"
    by (cases "fold (process_line parse) (butlast ?m) (c1, [])")
  have f2b: "fold (process_line parse) (butlast ?m) (c1\<lparr>buffer := last ?l1\<rparr>, []) = (c2\<lparr>buffer := last ?l1\<rparr>, o2)"
    using fold_process_line_buffer[where parse=parse and ls="butlast ?m" and c=c1 and b="last ?l1" and out="[]"] f2 by simp
  have f2o: "fold (process_line parse) (butlast ?m) (c1, o1) = (c2, o1 @ o2)"
    using fold_process_line_out[of parse "butlast ?m" c1 o1] f2 by simp
  have lhs: "feed parse c (ch # chs) = (c2\<lparr>buffer := last ?m\<rparr>, o1 @ o2)"
    using od ih s2 f2b by (simp add: process_complete_lines_def)
  have bl: "butlast (butlast ?l1 @ ?m) = butlast ?l1 @ butlast ?m" 
    by (simp add: butlast_append)
  have rhs: "process_complete_lines parse c (buffer c @ concat (ch # chs)) = (c2\<lparr>buffer := last ?m\<rparr>, o1 @ o2)"
    unfolding process_complete_lines_def Let_def using s bl f1 f2o by simp
  show ?case using lhs rhs by simp
qed

text \<open>
  Claim C2. A response line whose id is \<open>n\<close> resolves exactly the entry registered under
  \<open>n\<close> (one outcome, that of this entry) and removes it from \<open>pending\<close>, leaving every
  other entry in place; a response without an id, or with an id that has no entry, and a
  line that does not parse, leave the client and the outcomes as they were. The handler is
  a total function: no case throws. For every sequence of chunks, fed to a client whose
  buffer holds no newline (as every buffer the handler leaves does), the handler does
  what one pass over the complete lines of the concatenated text does, whatever the
  chunk boundaries. (\<open>JSON.parse\<close> throws on a line of whitespace only, which the
  handler skips before parsing.)
\<close>

theorem C2_response_correlation:
  "(trim line \<noteq> [] \<and> parse line = Some msg \<and> msg_id msg = Some n \<and> pending c n = Some w \<longrightarrow>
        pending (fst (process_line parse line (c, []))) = (pending c)(n := None)
      \<and> snd (process_line parse line (c, [])) =
            (case w of Handshake \<Rightarrow> [Started]
                     | ToolCall \<Rightarrow> [Resolved n (callTool_resolve parse line)]))
   \<and> (parse line = None
        \<or> (parse line = Some msg \<and> (msg_id msg = None \<or> (msg_id msg = Some n \<and> pending c n = None)))
      \<longrightarrow> process_line parse line (c, out) = (c, out))
   \<and> (NL \<notin> set (buffer c) \<longrightarrow>
        feed parse c chunks = process_complete_lines parse c (buffer c @ concat chunks))"
proof -
  have a: "pending (fst (process_line parse line (c, []))) = (pending c)(n := None)
      \<and> snd (process_line parse line (c, [])) =
            (case w of Handshake \<Rightarrow> [Started]
                     | ToolCall \<Rightarrow> [Resolved n (callTool_resolve parse line)])"
    if "trim line \<noteq> []" "parse line = Some msg" "msg_id msg = Some n" "pending c n = Some w"
    using that by (cases w) (simp_all add: process_line_def run_resolve_def)
  have b: "process_line parse line (c, out) = (c, out)"
    if "parse line = None
        \<or> (parse line = Some msg \<and> (msg_id msg = None \<or> (msg_id msg = Some n \<and> pending c n = None)))"
    using that by (auto simp: process_line_def)
  show ?thesis using a b feed_process_complete_lines[of c parse chunks] by blast
qed

theorem C2_response_correlation_witness:
  "pending (fst (process_line example_parse ''r'' (example_client, []))) = Map.empty
   \<and> snd (process_line example_parse ''r'' (example_client, [])) =
        [Resolved 2 (''[GitNexus]'' @ [CHR 0x0A] @ ''hello'')]
   \<and> process_line example_parse ''h'' (example_client, []) = (example_client, [])
   \<and> process_line example_parse ''{not json'' (example_client, []) = (example_client, [])
   \<and> feed example_parse example_client [''{no'', ''t json'' @ [NL] @ ''r'', [NL]]
       = process_complete_lines example_parse example_client (''{not json'' @ [NL] @ ''r'' @ [NL])"
proof -
  have t: "trim ''r'' \<noteq> []" by (simp add: trim_def is_ws_def)
  have p: "example_parse ''r'' = Some example_response" "msg_id example_response = Some 2"
    by (simp_all add: example_parse_def example_response_def)
  have q: "pending example_client 2 = Some ToolCall" "NL \<notin> set (buffer example_client)"
    by (simp_all add: example_client_def)
  have h: "example_parse ''h'' = Some \<lparr>msg_id = Some 1, result = None, error = None\<rparr>"
      "pending example_client 1 = None" "example_parse ''{not json'' = None"
    by (simp_all add: example_parse_def example_client_def)
  have r: "callTool_resolve example_parse ''r'' = ''[GitNexus]'' @ [CHR 0x0A] @ ''hello''"
    by (simp add: callTool_resolve_def p interpret_response_def example_response_def truthy_flag_def
      keep_block_def truthy_text_def block_text_def GITNEXUS_LABEL_def NL_def MAX_OUTPUT_CHARS_def)
  have m: "(pending example_client)(2 := None) = Map.empty" by (auto simp: example_client_def)
  note A = C2_response_correlation[of "''r''" example_parse example_response 2 example_client ToolCall "[]"
        "[''{no'', ''t json'' @ [NL] @ ''r'', [NL]]"]
  note B = C2_response_correlation[of "''h''" example_parse "\<lparr>msg_id = Some 1, result = None, error = None\<rparr>" 1
        example_client ToolCall "[]" "[]"]
  note C = C2_response_correlation[of "''{not json''" example_parse example_response 2 example_client ToolCall "[]" "[]"]
  have c1: "pending (fst (process_line example_parse ''r'' (example_client, []))) = Map.empty
     \<and> snd (process_line example_parse ''r'' (example_client, [])) =
        [Resolved 2 (''[GitNexus]'' @ [CHR 0x0A] @ ''hello'')]"
    using A[THEN conjunct1] t p q(1) r m by simp
  have c2: "process_line example_parse ''h'' (example_client, []) = (example_client, [])"
    using B[THEN conjunct2, THEN conjunct1] h(1,2) by simp
  have c3: "process_line example_parse ''{not json'' (example_client, []) = (example_client, [])"
    using C[THEN conjunct2, THEN conjunct1] h(3) by simp
  have c4: "feed example_parse example_client [''{no'', ''t json'' @ [NL] @ ''r'', [NL]]
       = process_complete_lines example_parse example_client (''{not json'' @ [NL] @ ''r'' @ [NL])"
  proof -
    have "buffer example_client @ concat [''{no'', ''t json'' @ [NL] @ ''r'', [NL]] = ''{not json'' @ [NL] @ ''r'' @ [NL]"
      by (simp add: example_client_def)
    then show ?thesis using A[THEN conjunct2, THEN conjunct2, THEN mp, OF q(2)] by metis
  qed
  show ?thesis using c1 c2 c3 c4 by blast
qed

subsection \<open>Request ids\<close>

lemma request_ids_append: "request_ids (xs @ ys) = request_ids xs @ request_ids ys"
  by (induction xs rule: request_ids.induct) auto

lemma process_line_nextId:
  "process_line parse line (c, out) = (c', out') \<Longrightarrow> nextId c' = nextId c \<and> request_ids out' = request_ids out"
  by (auto simp: process_line_def run_resolve_def Let_def request_ids_append split: option.splits waiter.splits if_splits)

lemma fold_process_line_nextId:
  "fold (process_line parse) ls (c, out) = (c', out') \<Longrightarrow> nextId c' = nextId c \<and> request_ids out' = request_ids out"
proof (induction ls arbitrary: c out)
  case Nil
  then show ?case by simp
next
  case (Cons l ls)
  obtain c1 o1 where p: "process_line parse l (c, out) = (c1, o1)" by (cases "process_line parse l (c, out)")
  then show ?case using Cons.IH[of c1 o1] Cons.prems process_line_nextId[OF p] by simp
qed

lemma on_data_nextId:
  "on_data parse c chunk = (c', out') \<Longrightarrow> nextId c' = nextId c \<and> request_ids out' = []"
  unfolding on_data_def Let_def
  using fold_process_line_nextId[where out="[]"] by fastforce

lemma request_ids_reject_all: "request_ids (reject_all pend ks) = []"
  by (induction ks) (auto simp: reject_all_def run_reject_def request_ids_append split: option.splits waiter.splits)

lemma step_nextId:
  assumes "step parse c e = (c1, o1)"
  shows "nextId c \<le> nextId c1 \<and> request_ids o1 = [nextId c .. nextId c1 - 1]"
  using assms
proof (cases e)
  case (Data chunk)
  then show ?thesis using assms on_data_nextId[of parse c chunk c1 o1] by (simp add: step_def)
qed (auto simp: step_def ensureStarted_def callTool_def on_close_def on_error_def stop_def Let_def
      request_ids_reject_all request_ids_append split: if_splits)

lemma run_nextId:
  "run parse c es = (c', outs) \<Longrightarrow> nextId c \<le> nextId c' \<and> request_ids outs = [nextId c .. nextId c' - 1]"
proof (induction es arbitrary: c c' outs)
  case Nil
  then show ?case by simp
next
  case (Cons e es)
  obtain c1 o1 where s: "step parse c e = (c1, o1)" by (cases "step parse c e")
  obtain c2 o2 where r: "run parse c1 es = (c2, o2)" by (cases "run parse c1 es")
  have eq: "c' = c2" "outs = o1 @ o2" using Cons.prems s r by auto
  have a: "nextId c \<le> nextId c1" "request_ids o1 = [nextId c .. nextId c1 - 1]" using step_nextId[OF s] by auto
  have b: "nextId c1 \<le> nextId c2" "request_ids o2 = [nextId c1 .. nextId c2 - 1]" using Cons.IH[OF r] by auto
  have "[nextId c .. nextId c2 - 1] = [nextId c .. nextId c1 - 1] @ [nextId c1 .. nextId c2 - 1]"
    using a(1) b(1) upto_split1[of "nextId c" "nextId c1" "nextId c2 - 1"]
    by (cases "nextId c1 = nextId c2") auto
  then show ?case using a b eq by (simp add: request_ids_append)
qed

lemma sorted_wrt_upto: "sorted_wrt (<) [i..j]"
  by (induction i j rule: upto.induct) (smt (verit) sorted_wrt.simps upto.simps set_upto mem_Collect_eq atLeastAtMost_iff)

text \<open>
  Claim C10. \<open>nextId\<close> starts at 2; a call that reaches the id allocation takes the
  current value and increments the counter by exactly one; \<open>stop\<close> and the close
  handler leave the counter alone. Hence over any sequence of events of the client's
  lifetime, across stops, exits and restarts, the ids taken are exactly 2, 3, ... in this
  order: strictly increasing and distinct.
\<close>

theorem C10_request_ids_increase:
  "nextId new_client = 2
   \<and> (proc c \<longrightarrow>
        nextId (fst (callTool True write_ok c)) = nextId c + 1
        \<and> request_ids (snd (callTool True write_ok c)) = [nextId c])
   \<and> nextId (fst (stop ks c)) = nextId c
   \<and> nextId (fst (on_close ks c)) = nextId c
   \<and> (run parse new_client es = (c', outs) \<longrightarrow>
        request_ids outs = [2 .. nextId c' - 1]
        \<and> sorted_wrt (<) (request_ids outs)
        \<and> distinct (request_ids outs))"
proof -
  have a: "nextId new_client = 2" by (simp add: new_client_def)
  have b: "proc c \<longrightarrow>
        nextId (fst (callTool True write_ok c)) = nextId c + 1
        \<and> request_ids (snd (callTool True write_ok c)) = [nextId c]"
    by (simp add: callTool_def Let_def)
  have c: "nextId (fst (stop ks c)) = nextId c" by (simp add: stop_def)
  have d: "nextId (fst (on_close ks c)) = nextId c" by (simp add: on_close_def)
  have e: "run parse new_client es = (c', outs) \<longrightarrow>
        request_ids outs = [2 .. nextId c' - 1]
        \<and> sorted_wrt (<) (request_ids outs)
        \<and> distinct (request_ids outs)"
  proof
    assume r: "run parse new_client es = (c', outs)"
    have "request_ids outs = [2 .. nextId c' - 1]" using run_nextId[OF r] a by simp
    then show "request_ids outs = [2 .. nextId c' - 1]
        \<and> sorted_wrt (<) (request_ids outs)
        \<and> distinct (request_ids outs)"
      using sorted_wrt_upto[of 2 "nextId c' - 1"] by simp
  qed
  show ?thesis using a b c d e by blast
qed

theorem C10_request_ids_increase_witness:
  "request_ids (snd (run example_parse new_client example_session)) = [2, 3]
   \<and> nextId (fst (run example_parse new_client example_session)) = 4
   \<and> nextId (fst (callTool True True (new_client\<lparr>proc := True\<rparr>))) = 3"
proof -
  have ev: "nextId (fst (run example_parse new_client example_session)) = 4"
    by code_simp
  have p: "proc (new_client\<lparr>proc := True\<rparr>)" by simp
  have n: "nextId (new_client\<lparr>proc := True\<rparr>) = 2" by (simp add: new_client_def)
  show ?thesis
    using C10_request_ids_increase[of "new_client\<lparr>proc := True\<rparr>" True "[]" example_parse example_session
        "fst (run example_parse new_client example_session)" "snd (run example_parse new_client example_session)"]
      ev p n
    by (simp add: upto_rec1)
qed

subsection \<open>Interpretation of a response\<close>

lemma interpret_nonempty:
  "interpret_response msg \<noteq> [] \<Longrightarrow>
   \<exists>res blocks. error msg = None \<and> result msg = Some res \<and> result_content res = Some blocks \<and> \<not> truthy_flag (result_isError res) \<and>
     interpret_response msg = GITNEXUS_LABEL @ take MAX_OUTPUT_CHARS (join [NL] (map block_text (filter keep_block blocks)))"
  by (auto simp: interpret_response_def split: option.splits if_splits)

lemma callTool_resolve_nonempty:
  "callTool_resolve parse raw \<noteq> [] \<Longrightarrow>
   \<exists>msg res blocks. parse raw = Some msg \<and> error msg = None \<and> result msg = Some res \<and> result_content res = Some blocks \<and> \<not> truthy_flag (result_isError res) \<and>
     callTool_resolve parse raw = GITNEXUS_LABEL @ take MAX_OUTPUT_CHARS (join [NL] (map block_text (filter keep_block blocks)))"
  unfolding callTool_resolve_def
  by (cases "parse raw") (auto dest: interpret_nonempty)

lemma labelled_empty: "labelled parse []"
  by (simp add: labelled_def)

lemma all_labelled_append: "all_labelled parse (xs @ ys) = (all_labelled parse xs \<and> all_labelled parse ys)"
  by (auto simp: all_labelled_def)

lemma labelled_callTool_resolve: "labelled parse (callTool_resolve parse raw)"
proof (cases "callTool_resolve parse raw = []")
  case True
  then show ?thesis by (simp add: labelled_def)
next
  case False
  from callTool_resolve_nonempty[OF False] obtain msg res blocks where
    "parse raw = Some msg" "result msg = Some res" "result_content res = Some blocks"
    "callTool_resolve parse raw = GITNEXUS_LABEL @ take MAX_OUTPUT_CHARS (join [NL] (map block_text (filter keep_block blocks)))"
    by blast
  then show ?thesis
    unfolding labelled_def GITNEXUS_LABEL_def NL_def MAX_OUTPUT_CHARS_def by (intro disjI2 exI[of _ raw] exI[of _ msg] exI[of _ res] exI[of _ blocks]) simp
qed

lemma process_line_labelled:
  "all_labelled parse out \<Longrightarrow> all_labelled parse (snd (process_line parse line (c, out)))"
  using labelled_callTool_resolve[of parse line]
  by (auto simp: process_line_def run_resolve_def Let_def all_labelled_def split: option.splits waiter.splits)

lemma fold_process_line_labelled:
  "all_labelled parse out \<Longrightarrow> all_labelled parse (snd (fold (process_line parse) ls (c, out)))"
proof (induction ls arbitrary: c out)
  case Nil
  then show ?case by simp
next
  case (Cons l ls)
  obtain c1 o1 where p: "process_line parse l (c, out) = (c1, o1)" by (cases "process_line parse l (c, out)")
  have "all_labelled parse o1" using process_line_labelled[OF Cons.prems, of l c] p by simp
  then show ?case using Cons.IH[of o1 c1] p by simp
qed

lemma run_reject_outcome:
  "(run_reject k w = Resolved i s \<longrightarrow> s = []) \<and> run_reject k w \<noteq> Returned s"
  by (cases w) (auto simp: run_reject_def)

lemma reject_all_labelled: "all_labelled parse (reject_all pend ks)"
proof -
  have "labelled parse s" if "Resolved i s \<in> set (reject_all pend ks) \<or> Returned s \<in> set (reject_all pend ks)" for i s
  proof -
    from that obtain k w where "Resolved i s = run_reject k w \<or> Returned s = run_reject k w"
      by (auto simp: reject_all_def split: option.splits)
    then have "s = []" using run_reject_outcome[of k w i s] by metis
    then show ?thesis by (simp add: labelled_empty)
  qed
  then show ?thesis unfolding all_labelled_def by blast
qed

lemma step_labelled: "all_labelled parse (snd (step parse c e))"
proof (cases e)
  case (Data chunk)
  have "all_labelled parse []" by (simp add: all_labelled_def)
  from fold_process_line_labelled[OF this] show ?thesis using Data by (simp add: step_def on_data_def Let_def)
next
  case Close
  then show ?thesis by (simp add: step_def on_close_def reject_all_labelled)
next
  case Stop
  then show ?thesis using reject_all_labelled[of parse "pending c" "pending_keys c"]
    by (simp add: step_def stop_def all_labelled_append) (simp add: all_labelled_def)
qed (auto simp: step_def all_labelled_def labelled_empty callTool_def on_error_def Let_def)

lemma run_labelled: "all_labelled parse (snd (run parse c es))"
proof (induction es arbitrary: c)
  case Nil
  then show ?case by (simp add: all_labelled_def)
next
  case (Cons e es)
  obtain c1 o1 where s: "step parse c e = (c1, o1)" by (cases "step parse c e")
  obtain c2 o2 where r: "run parse c1 es = (c2, o2)" by (cases "run parse c1 es")
  show ?case using step_labelled[of parse c e] Cons.IH[of c1] s r by (simp add: all_labelled_append)
qed

text \<open>
  Claim C9. Every non-empty string that a call produces, over any sequence of events, is
  the label \<open>[GitNexus]\<close> and a newline followed by the joined text of the kept blocks of
  some response, cut to at most 8192 characters.
\<close>

theorem C9_callTool_label_and_budget:
  assumes "run parse c es = (c', outs)"
    and "Resolved i s \<in> set outs \<or> Returned s \<in> set outs"
    and "s \<noteq> []"
  shows "\<exists>raw msg res blocks.
           parse raw = Some msg \<and> result msg = Some res \<and> result_content res = Some blocks \<and>
           s = ''[GitNexus]'' @ [CHR 0x0A] @
               take 8192 (join [CHR 0x0A] (map block_text (filter keep_block blocks))) \<and>
           length s \<le> 11 + 8192"
proof -
  have "all_labelled parse outs" using run_labelled[of parse c es] assms(1) by simp
  then have "labelled parse s" using assms(2) unfolding all_labelled_def by blast
  then obtain raw msg res blocks where h:
    "parse raw = Some msg" "result msg = Some res" "result_content res = Some blocks"
    "s = ''[GitNexus]'' @ [CHR 0x0A] @ take 8192 (join [CHR 0x0A] (map block_text (filter keep_block blocks)))"
    using assms(3) unfolding labelled_def by blast
  have "length s \<le> 11 + 8192" unfolding h(4) by simp
  then show ?thesis using h by blast
qed

theorem C9_callTool_label_and_budget_witness:
  "\<exists>raw msg res blocks.
     example_parse raw = Some msg \<and> result msg = Some res \<and> result_content res = Some blocks \<and>
     ''[GitNexus]'' @ [CHR 0x0A] @ ''hello'' = ''[GitNexus]'' @ [CHR 0x0A] @
               take 8192 (join [CHR 0x0A] (map block_text (filter keep_block blocks))) \<and>
     length (''[GitNexus]'' @ [CHR 0x0A] @ ''hello'') \<le> 11 + 8192"
proof -
  have m: "Resolved 2 (''[GitNexus]'' @ [CHR 0x0A] @ ''hello'') \<in> set (snd (run example_parse new_client example_session))"
    by code_simp
  show ?thesis
    using C9_callTool_label_and_budget[of example_parse new_client example_session
        "fst (run example_parse new_client example_session)" "snd (run example_parse new_client example_session)"
        2 "''[GitNexus]'' @ [CHR 0x0A] @ ''hello''"] m
    by simp
qed

text \<open>
  Claim C1, as the code has it. The call yields the empty string when the line does not
  parse, when the response carries an \<open>error\<close>, when it has no \<open>result\<close>, when the result
  has no \<open>content\<close>, and when the result's \<open>isError\<close> is set. Otherwise, when at least one
  block is of type \<open>text\<close>, not flagged as an error and has a non-empty text, the call
  yields the label \<open>[GitNexus]\<close> and a newline followed by the newline-joined texts of
  exactly these blocks, cut to 8192 characters.
\<close>

theorem C1_result_interpretation:
  "(parse raw = None \<longrightarrow> callTool_resolve parse raw = [])
   \<and> (parse raw = Some msg \<and> error msg \<noteq> None \<longrightarrow> callTool_resolve parse raw = [])
   \<and> (parse raw = Some msg \<and> result msg = None \<longrightarrow> callTool_resolve parse raw = [])
   \<and> (parse raw = Some msg \<and> result msg = Some res \<and> (result_content res = None \<or> result_isError res = Some True)
        \<longrightarrow> callTool_resolve parse raw = [])
   \<and> (parse raw = Some msg \<and> error msg = None \<and> result msg = Some res \<and> result_isError res \<noteq> Some True
        \<and> result_content res = Some blocks
        \<and> kept = [c \<leftarrow> blocks. ctype c = ''text'' \<and> cisError c \<noteq> Some True \<and> ctext c \<noteq> None \<and> ctext c \<noteq> Some []]
        \<and> kept \<noteq> []
        \<longrightarrow> callTool_resolve parse raw =
              ''[GitNexus]'' @ [CHR 0x0A] @ take 8192 (join [CHR 0x0A] (map (\<lambda>c. the (ctext c)) kept))
            \<and> callTool_resolve parse raw \<noteq> [])"
proof -
  have k: "filter keep_block blocks = [c \<leftarrow> blocks. ctype c = ''text'' \<and> cisError c \<noteq> Some True \<and> ctext c \<noteq> None \<and> ctext c \<noteq> Some []]"
    by (rule filter_cong) (auto simp: keep_block_def truthy_flag_def truthy_text_def split: option.splits)
  have m: "map block_text (filter keep_block blocks) = map (\<lambda>c. the (ctext c)) (filter keep_block blocks)"
    by (rule map_cong) (auto simp: keep_block_def block_text_def truthy_text_def split: option.splits)
  have e: "interpret_response msg =
        ''[GitNexus]'' @ [CHR 0x0A] @ take 8192 (join [CHR 0x0A] (map (\<lambda>c. the (ctext c)) kept))"
    if "error msg = None" "result msg = Some res" "result_isError res \<noteq> Some True" "result_content res = Some blocks"
       "kept = [c \<leftarrow> blocks. ctype c = ''text'' \<and> cisError c \<noteq> Some True \<and> ctext c \<noteq> None \<and> ctext c \<noteq> Some []]"
  proof -
    have k': "kept = filter keep_block blocks" using that(5) k by simp
    have "interpret_response msg =
        ''[GitNexus]'' @ [CHR 0x0A] @ take 8192 (join [CHR 0x0A] (map block_text (filter keep_block blocks)))"
      using that(1-4)
      by (simp add: interpret_response_def truthy_flag_def GITNEXUS_LABEL_def NL_def MAX_OUTPUT_CHARS_def)
    then show ?thesis unfolding m k' .
  qed
  have f: "callTool_resolve parse raw = []"
    if "parse raw = None \<or> (parse raw = Some msg \<and> (error msg \<noteq> None \<or> result msg = None
         \<or> (result msg = Some res \<and> (result_content res = None \<or> result_isError res = Some True))))"
    using that
    by (auto simp: callTool_resolve_def interpret_response_def truthy_flag_def split: option.splits)
  show ?thesis
    using e f by (auto simp: callTool_resolve_def)
qed

theorem C1_result_interpretation_witness:
  "callTool_resolve example_parse ''x'' = []
   \<and> callTool_resolve example_parse ''r'' = ''[GitNexus]'' @ [CHR 0x0A] @ ''hello''"
proof -
  let ?b = "\<lparr>ctype = ''text'', ctext = Some ''hello'', cisError = None\<rparr>"
  let ?res = "\<lparr>result_content = Some [?b], result_isError = None\<rparr>"
  have a: "example_parse ''x'' = None" by (simp add: example_parse_def)
  have b: "example_parse ''r'' = Some example_response" by (simp add: example_parse_def)
  have c: "error example_response = None" "result example_response = Some ?res"
    by (simp_all add: example_response_def)
  have x: "callTool_resolve example_parse ''x'' = []"
    using C1_result_interpretation[of example_parse "''x''" example_response ?res "[?b]" "[?b]"] a by simp
  have r: "callTool_resolve example_parse ''r'' = ''[GitNexus]'' @ [CHR 0x0A] @ ''hello''"
    using C1_result_interpretation[of example_parse "''r''" example_response ?res "[?b]" "[?b]"] b c by simp
  show ?thesis using x r by simp
qed

text \<open>
  The claim as stated fails: the result of a response with one text block \<open>hello\<close> is
  not the joined text \<open>hello\<close> but the labelled string.
\<close>

theorem C1_result_interpretation_counterexample:
  "callTool_resolve example_parse ''r'' = ''[GitNexus]'' @ [CHR 0x0A] @ ''hello''
   \<and> callTool_resolve example_parse ''r'' \<noteq> join [CHR 0x0A] [''hello'']"
  by (simp add: callTool_resolve_def example_parse_def interpret_response_def example_response_def
      truthy_flag_def keep_block_def truthy_text_def block_text_def GITNEXUS_LABEL_def NL_def
      MAX_OUTPUT_CHARS_def)

text \<open>
  With an empty content list the handler still prepends the label, so the result is the
  label alone, a non-empty string.
\<close>

lemma callTool_resolve_empty_content:
  "callTool_resolve example_parse ''e'' = ''[GitNexus]'' @ [CHR 0x0A]"
  by (simp add: callTool_resolve_def example_parse_def interpret_response_def empty_response_def truthy_flag_def
      GITNEXUS_LABEL_def NL_def MAX_OUTPUT_CHARS_def)

section \<open>Properties of the tool_result hook\<close>

subsection \<open>Candidates are distinct and few\<close>

lemma uniq_from_props:
  "distinct (uniq_from seen xs) \<and> set (uniq_from seen xs) = set xs - set seen"
  by (induction seen xs rule: uniq_from.induct) auto

lemma distinct_uniq: "distinct (uniq xs)"
  using uniq_from_props[of "[]" xs] by (simp add: uniq_def)

lemma length_uniq_from: "length (uniq_from seen xs) \<le> length xs"
  by (induction seen xs rule: uniq_from.induct) auto

lemma length_uniq: "length (uniq xs) \<le> length xs"
  by (simp add: uniq_def length_uniq_from)

lemma scan_lines_length:
  "length results < limit \<Longrightarrow> length (scan_lines limit ls seen results) \<le> limit"
proof (induction ls arbitrary: seen results)
  case Nil
  then show ?case by simp
next
  case (Cons l ls)
  show ?case
  proof (cases "grep_line_path l")
    case None
    then show ?thesis using Cons by simp
  next
    case (Some m)
    let ?base = "strip_ext (basename m)"
    show ?thesis
    proof (cases "length ?base \<ge> 3 \<and> ?base \<notin> seen")
      case True
      then show ?thesis using Some Cons.prems Cons.IH[of "results @ [?base]" "insert ?base seen"]
        by (auto simp: Let_def)
    next
      case False
      then show ?thesis using Some Cons.prems Cons.IH[of results seen]
        by (auto simp: Let_def)
    qed
  qed
qed

lemma length_secondary: "length (extractFilePatternsFromContent blocks 2) \<le> 2"
  unfolding extractFilePatternsFromContent_def by (rule scan_lines_length) simp

lemma length_candidates: "length (candidates_of ev) \<le> 3"
proof -
  have "length (candidates_of ev) \<le> length ((case extractPattern (toolName ev) (input ev) of None \<Rightarrow> [] | Some p \<Rightarrow> [p]) @
        (if toolName ev = ''grep'' \<or> toolName ev = ''bash''
                       then extractFilePatternsFromContent (content ev) 2 else []))"
    unfolding candidates_of_def Let_def
    by (rule order_trans[OF length_uniq]) (rule length_filter_le)
  also have "\<dots> \<le> 3"
    using length_secondary[of "content ev"] by (auto split: option.splits)
  finally show ?thesis .
qed

lemma distinct_candidates: "distinct (candidates_of ev)"
  by (simp add: candidates_of_def Let_def distinct_uniq)

lemma add_inv:
  assumes "seen = set (map pattern results)" "distinct (map pattern results)"
  shows "fst (add p (seen, results)) = set (map pattern (snd (add p (seen, results))))
       \<and> distinct (map pattern (snd (add p (seen, results))))"
  using assms by (auto simp: add_def Let_def)

lemma fold_add_inv:
  assumes "fst st = set (map pattern (snd st))" "distinct (map pattern (snd st))"
  shows "fst (fold (\<lambda>x st. case g x of Some p \<Rightarrow> add p st | None \<Rightarrow> st) xs st)
           = set (map pattern (snd (fold (\<lambda>x st. case g x of Some p \<Rightarrow> add p st | None \<Rightarrow> st) xs st)))
       \<and> distinct (map pattern (snd (fold (\<lambda>x st. case g x of Some p \<Rightarrow> add p st | None \<Rightarrow> st) xs st)))"
  using assms
proof (induction xs arbitrary: st)
  case Nil
  then show ?case by simp
next
  case (Cons x xs)
  obtain seen results where st: "st = (seen, results)" by (cases st)
  show ?case
  proof (cases "g x")
    case None
    then show ?thesis using Cons by simp
  next
    case (Some p)
    have "fst (add p st) = set (map pattern (snd (add p st))) \<and> distinct (map pattern (snd (add p st)))"
      using add_inv[of seen results p] Cons.prems st by simp
    then show ?thesis using Cons.IH[of "add p st"] Some by simp
  qed
qed

lemma distinct_extractFiles: "distinct (map pattern (extractFilesFromReadMany inp blocks))"
proof -
  let ?f = "\<lambda>f st. case file_path_of f of Some p \<Rightarrow> add p st | None \<Rightarrow> st"
  let ?g = "\<lambda>line st. case at_path line of Some p \<Rightarrow> add p st | None \<Rightarrow> st"
  let ?st1 = "fold ?f (input_files inp) ({}, [])"
  have i1: "fst ?st1 = set (map pattern (snd ?st1)) \<and> distinct (map pattern (snd ?st1))"
    by (rule fold_add_inv) simp_all
  have i2: "distinct (map pattern (snd (fold ?g ls ?st1)))" for ls
    using fold_add_inv[of ?st1 at_path ls] i1 by simp
  show ?thesis
    unfolding extractFilesFromReadMany_def Let_def using i1 i2 by simp
qed

subsection \<open>What one run of the hook dispatches\<close>

lemma read_many_dispatch:
  assumes "read_many_result aug cwd s ev = (s', d, c)"
  shows "distinct d \<and> set d \<inter> augmentedCache s = {} \<and> augmentedCache s' = augmentedCache s \<union> set d
       \<and> length d \<le> 5
       \<and> sessionCwd s' = sessionCwd s \<and> augmentEnabled s' = augmentEnabled s
       \<and> (\<forall>c'. c = Some c' \<longrightarrow> (\<exists>t. c' = content ev @ [text_block t]))"
proof -
  let ?files = "extractFilesFromReadMany (input ev) (content ev)"
  let ?fresh = "take 5 (filter (\<lambda>f. pattern f \<notin> augmentedCache s) ?files)"
  have d: "distinct (map pattern ?fresh)"
    using distinct_extractFiles[of "input ev" "content ev"]
    by (simp add: distinct_map distinct_take inj_on_def) (metis (mono_tags, lifting) in_set_takeD mem_Collect_eq set_filter)
  have n: "set (map pattern ?fresh) \<inter> augmentedCache s = {}"
    by (auto dest!: in_set_takeD)
  have l: "length (map pattern ?fresh) \<le> 5" by simp
  show ?thesis
  proof (cases "?fresh = []")
    case True
    then show ?thesis using assms by (simp add: read_many_result_def Let_def)
  next
    case False
    let ?s1 = "s\<lparr>augmentedCache := augmentedCache s \<union> set (map pattern ?fresh)\<rparr>"
    from False assms have "(s' = ?s1 \<or> s' = ?s1\<lparr>augmentHits := augmentHits ?s1 + 1\<rparr>)
        \<and> d = map pattern ?fresh \<and> (c = None \<or> (\<exists>t. c = Some (content ev @ [text_block t])))"
      unfolding read_many_result_def Let_def by (simp split: if_splits) blast+
    then show ?thesis using d n l by auto
  qed
qed

lemma read_many_dispatched:
  "fst (snd (read_many_result aug cwd s ev)) =
     map pattern (take 5 (filter (\<lambda>f. pattern f \<notin> augmentedCache s) (extractFilesFromReadMany (input ev) (content ev))))"
  by (simp add: read_many_result_def Let_def)

lemma single_pattern_dispatched:
  "fst (snd (single_pattern_result aug cwd s ev)) = filter (\<lambda>p. p \<notin> augmentedCache s) (candidates_of ev)"
proof -
  let ?fresh = "filter (\<lambda>p. p \<notin> augmentedCache s) (candidates_of ev)"
  have "length ?fresh \<le> 3"
    using length_candidates[of ev] length_filter_le[of "\<lambda>p. p \<notin> augmentedCache s" "candidates_of ev"] by linarith
  then have t: "take 3 ?fresh = ?fresh" by simp
  show ?thesis using t by (simp add: single_pattern_result_def Let_def)
qed

lemma single_pattern_dispatch:
  assumes "single_pattern_result aug cwd s ev = (s', d, c)"
  shows "distinct d \<and> set d \<inter> augmentedCache s = {} \<and> augmentedCache s' = augmentedCache s \<union> set d
       \<and> sessionCwd s' = sessionCwd s \<and> augmentEnabled s' = augmentEnabled s
       \<and> (\<forall>c'. c = Some c' \<longrightarrow> (\<exists>t. c' = content ev @ [text_block t]))"
proof -
  let ?fresh = "filter (\<lambda>p. p \<notin> augmentedCache s) (candidates_of ev)"
  have "length ?fresh \<le> 3"
    using length_candidates[of ev] length_filter_le[of "\<lambda>p. p \<notin> augmentedCache s" "candidates_of ev"] by linarith
  then have t: "take 3 ?fresh = ?fresh" by simp
  have d: "distinct ?fresh" using distinct_candidates[of ev] by simp
  have n: "set ?fresh \<inter> augmentedCache s = {}" by auto
  show ?thesis
  proof (cases "?fresh = []")
    case True
    then show ?thesis using assms by (simp add: single_pattern_result_def Let_def)
  next
    case False
    let ?s1 = "s\<lparr>augmentedCache := augmentedCache s \<union> set ?fresh\<rparr>"
    from False assms t have "(s' = ?s1 \<or> s' = ?s1\<lparr>augmentHits := augmentHits ?s1 + 1\<rparr>)
        \<and> d = ?fresh \<and> (c = None \<or> (\<exists>t. c = Some (content ev @ [text_block t])))"
      unfolding single_pattern_result_def Let_def by (simp split: if_splits) blast+
    then show ?thesis using d n by auto
  qed
qed

lemma tool_result_cases:
  "tool_result idx aug cc s ev =
     (if \<not> augmentEnabled s \<or> toolName ev \<notin> set SEARCH_TOOLS then (s, [], None)
      else if \<not> idx (if sessionCwd s \<noteq> [] then sessionCwd s else cc) then (s\<lparr>hookFires := hookFires s + 1\<rparr>, [], None)
      else if toolName ev = ''read_many''
        then read_many_result aug (if sessionCwd s \<noteq> [] then sessionCwd s else cc) (s\<lparr>hookFires := hookFires s + 1\<rparr>) ev
      else single_pattern_result aug (if sessionCwd s \<noteq> [] then sessionCwd s else cc) (s\<lparr>hookFires := hookFires s + 1\<rparr>) ev)"
  by (simp add: tool_result_def Let_def)

lemma tool_result_dispatch:
  assumes "tool_result idx aug cc s ev = (s', d, c)"
  shows "distinct d \<and> set d \<inter> augmentedCache s = {} \<and> augmentedCache s' = augmentedCache s \<union> set d
       \<and> length d \<le> 5
       \<and> sessionCwd s' = sessionCwd s \<and> augmentEnabled s' = augmentEnabled s
       \<and> (\<forall>c'. c = Some c' \<longrightarrow> (\<exists>t. c' = content ev @ [text_block t]))"
proof -
  let ?cwd = "if sessionCwd s \<noteq> [] then sessionCwd s else cc"
  let ?s1 = "s\<lparr>hookFires := hookFires s + 1\<rparr>"
  consider (early) "\<not> augmentEnabled s \<or> toolName ev \<notin> set SEARCH_TOOLS \<or> \<not> idx ?cwd"
    | (many) "\<not> (\<not> augmentEnabled s \<or> toolName ev \<notin> set SEARCH_TOOLS \<or> \<not> idx ?cwd)" "toolName ev = ''read_many''"
    | (single) "\<not> (\<not> augmentEnabled s \<or> toolName ev \<notin> set SEARCH_TOOLS \<or> \<not> idx ?cwd)" "toolName ev \<noteq> ''read_many''"
    by blast
  then show ?thesis
  proof cases
    case early
    then have "d = [] \<and> c = None \<and> (s' = s \<or> s' = ?s1)"
      using assms unfolding tool_result_cases by (auto split: if_splits)
    then show ?thesis by auto
  next
    case many
    then have "read_many_result aug ?cwd ?s1 ev = (s', d, c)"
      using assms unfolding tool_result_cases by simp
    from read_many_dispatch[OF this] show ?thesis by auto
  next
    case single
    then have r: "single_pattern_result aug ?cwd ?s1 ev = (s', d, c)"
      using assms unfolding tool_result_cases by simp
    have e: "d = filter (\<lambda>p. p \<notin> augmentedCache ?s1) (candidates_of ev)"
      using single_pattern_dispatched[of aug ?cwd ?s1 ev] r by simp
    have "length d \<le> length (candidates_of ev)"
      unfolding e by (rule length_filter_le)
    then have "length d \<le> 5"
      using length_candidates[of ev] by linarith
    with single_pattern_dispatch[OF r] show ?thesis by auto
  qed
qed

lemma tool_result_second_single:
  assumes "tool_result idx aug1 cc s ev = (s1, d1, c1)"
    and "tool_result idx aug2 cc s1 ev = (s2, d2, c2)"
    and "toolName ev \<noteq> ''read_many''"
  shows "d2 = []"
proof -
  let ?cwd = "if sessionCwd s \<noteq> [] then sessionCwd s else cc"
  let ?s0 = "s\<lparr>hookFires := hookFires s + 1\<rparr>"
  let ?s1 = "s1\<lparr>hookFires := hookFires s1 + 1\<rparr>"
  have same: "sessionCwd s1 = sessionCwd s" "augmentEnabled s1 = augmentEnabled s"
    "augmentedCache s1 = augmentedCache s \<union> set d1"
    using tool_result_dispatch[OF assms(1)] by auto
  have cwd: "(if sessionCwd s1 \<noteq> [] then sessionCwd s1 else cc) = ?cwd"
    using same(1) by simp
  note second = assms(2)[unfolded tool_result_cases cwd same(2)]
  show ?thesis
  proof (cases "\<not> augmentEnabled s \<or> toolName ev \<notin> set SEARCH_TOOLS \<or> \<not> idx ?cwd")
    case True
    then show ?thesis using second by (auto split: if_splits)
  next
    case False
    then have r1: "single_pattern_result aug1 ?cwd ?s0 ev = (s1, d1, c1)"
      using assms(1,3) unfolding tool_result_cases by simp
    from False have r2: "single_pattern_result aug2 ?cwd ?s1 ev = (s2, d2, c2)"
      using second assms(3) by simp
    have e1: "d1 = filter (\<lambda>p. p \<notin> augmentedCache s) (candidates_of ev)"
      using single_pattern_dispatched[of aug1 ?cwd ?s0 ev] r1 by simp
    have e2: "d2 = filter (\<lambda>p. p \<notin> augmentedCache s1) (candidates_of ev)"
      using single_pattern_dispatched[of aug2 ?cwd ?s1 ev] r2 by simp
    show ?thesis unfolding e2 same(3) e1 by (auto simp: filter_empty_conv)
  qed
qed

text \<open>
  Claim C4. Run the hook on an event and then again on the same event, in the session the
  first run leaves. Whatever the lookups of either run return: the patterns dispatched by
  the two runs together are pairwise distinct; none of them was in the dedup set when
  its run began; the first run adds exactly the patterns it dispatches to the dedup set,
  and both the patterns dispatched and the set after the run are the same for any other
  outcome of the lookups, so the set is extended without waiting for them; and for a tool
  other than \<open>read_many\<close> the second run dispatches nothing.
\<close>

theorem C4_dedup_law:
  assumes "tool_result idx aug1 cc s ev = (s1, d1, c1)"
    and "tool_result idx aug2 cc s1 ev = (s2, d2, c2)"
  shows "distinct (d1 @ d2)
       \<and> set d1 \<inter> augmentedCache s = {}
       \<and> augmentedCache s1 = augmentedCache s \<union> set d1
       \<and> set d2 \<inter> augmentedCache s1 = {}
       \<and> fst (snd (tool_result idx aug' cc s ev)) = d1
       \<and> augmentedCache (fst (tool_result idx aug' cc s ev)) = augmentedCache s1
       \<and> (toolName ev \<noteq> ''read_many'' \<longrightarrow> d2 = [])"
proof -
  note a = tool_result_dispatch[OF assms(1)]
  note b = tool_result_dispatch[OF assms(2)]
  have d: "distinct (d1 @ d2)" using a b by auto
  obtain s1' d1' c1' where r: "tool_result idx aug' cc s ev = (s1', d1', c1')"
    by (cases "tool_result idx aug' cc s ev") auto
  have ind: "d1' = d1"
  proof -
    let ?cwd = "if sessionCwd s \<noteq> [] then sessionCwd s else cc"
    let ?s0 = "s\<lparr>hookFires := hookFires s + 1\<rparr>"
    consider (early) "\<not> augmentEnabled s \<or> toolName ev \<notin> set SEARCH_TOOLS \<or> \<not> idx ?cwd"
      | (many) "\<not> (\<not> augmentEnabled s \<or> toolName ev \<notin> set SEARCH_TOOLS \<or> \<not> idx ?cwd)" "toolName ev = ''read_many''"
      | (single) "\<not> (\<not> augmentEnabled s \<or> toolName ev \<notin> set SEARCH_TOOLS \<or> \<not> idx ?cwd)" "toolName ev \<noteq> ''read_many''"
      by blast
    then show ?thesis
    proof cases
      case early
      then show ?thesis using assms(1) r unfolding tool_result_cases by (auto split: if_splits)
    next
      case many
      then have "read_many_result aug1 ?cwd ?s0 ev = (s1, d1, c1)" "read_many_result aug' ?cwd ?s0 ev = (s1', d1', c1')"
        using assms(1) r unfolding tool_result_cases by simp_all
      then show ?thesis using read_many_dispatched[of aug1 ?cwd ?s0 ev] read_many_dispatched[of aug' ?cwd ?s0 ev] by simp
    next
      case single
      then have "single_pattern_result aug1 ?cwd ?s0 ev = (s1, d1, c1)" "single_pattern_result aug' ?cwd ?s0 ev = (s1', d1', c1')"
        using assms(1) r unfolding tool_result_cases by simp_all
      then show ?thesis using single_pattern_dispatched[of aug1 ?cwd ?s0 ev] single_pattern_dispatched[of aug' ?cwd ?s0 ev] by simp
    qed
  qed
  have c: "augmentedCache s1' = augmentedCache s1"
    using tool_result_dispatch[OF r] a ind by simp
  show ?thesis
    using d a b r ind c tool_result_second_single[OF assms] by simp
qed

theorem C4_dedup_law_witness:
  "distinct ([''withdraw'', ''vault''] @ [])
   \<and> fst (snd (tool_result (\<lambda>d. True) example_augment ''/repo'' example_session0 example_grep_event)) = [''withdraw'', ''vault'']
   \<and> fst (snd (tool_result (\<lambda>d. True) example_augment ''/repo''
         (fst (tool_result (\<lambda>d. True) example_augment ''/repo'' example_session0 example_grep_event))
         example_grep_event)) = []
   \<and> fst (snd (tool_result (\<lambda>d. True) (\<lambda>p cwd. []) ''/repo'' example_session0 example_grep_event)) = [''withdraw'', ''vault'']"
proof -
  let ?r1 = "tool_result (\<lambda>d. True) example_augment ''/repo'' example_session0 example_grep_event"
  let ?r2 = "tool_result (\<lambda>d. True) example_augment ''/repo'' (fst ?r1) example_grep_event"
  have d1: "fst (snd ?r1) = [''withdraw'', ''vault'']" by code_simp
  have t: "toolName example_grep_event \<noteq> ''read_many''" by (simp add: example_grep_event_def)
  have r1: "?r1 = (fst ?r1, fst (snd ?r1), snd (snd ?r1))" by simp
  have r2: "?r2 = (fst ?r2, fst (snd ?r2), snd (snd ?r2))" by simp
  from C4_dedup_law[OF r1 r2, of "\<lambda>p cwd. []"] d1 t show ?thesis by simp
qed

text \<open>
  Claim C7. Whenever the hook returns content, in the single-pattern branch and in the
  \<open>read_many\<close> branch, it is the event's content, every block unchanged and in its place,
  followed by exactly one new block of type \<open>text\<close>.
\<close>

theorem C7_append_only:
  assumes "tool_result idx aug cc s ev = (s', d, Some c')"
  shows "\<exists>t. c' = content ev @ [\<lparr> btype = ''text'', btext = Some t \<rparr>]
           \<and> length c' = length (content ev) + 1
           \<and> take (length (content ev)) c' = content ev
           \<and> (\<forall>i < length (content ev). c' ! i = content ev ! i)"
proof -
  from tool_result_dispatch[OF assms] obtain t where "c' = content ev @ [text_block t]" by auto
  then show ?thesis by (auto simp: text_block_def nth_append)
qed

theorem C7_append_only_witness:
  "\<exists>t. content example_grep_event @
          [\<lparr> btype = ''text'', btext = Some ([NL, NL] @ ''[GitNexus: withdraw, vault]'' @ [NL] @ ''callers: deposit'') \<rparr>]
        = content example_grep_event @ [\<lparr> btype = ''text'', btext = Some t \<rparr>]
      \<and> length (content example_grep_event @
          [\<lparr> btype = ''text'', btext = Some ([NL, NL] @ ''[GitNexus: withdraw, vault]'' @ [NL] @ ''callers: deposit'') \<rparr>])
          = length (content example_grep_event) + 1"
proof -
  let ?r = "tool_result (\<lambda>d. True) example_augment ''/repo'' example_session0 example_grep_event"
  let ?c = "content example_grep_event @
          [\<lparr> btype = ''text'', btext = Some ([NL, NL] @ ''[GitNexus: withdraw, vault]'' @ [NL] @ ''callers: deposit'') \<rparr>]"
  have "snd (snd ?r) = Some ?c" by code_simp
  then have "?r = (fst ?r, fst (snd ?r), Some ?c)" by (metis prod.collapse)
  from C7_append_only[OF this] show ?thesis by blast
qed

section \<open>Properties of the one-shot invoker\<close>

lemma augment_data_steps:
  "foldl augment_step st (map StderrData chunks) = st\<lparr>stderr_output := stderr_output st @ concat chunks\<rparr>"
  by (induction chunks arbitrary: st) (simp_all add: augment_step_def)

lemma augment_settling_step:
  assumes "settles e" "\<not> is_done st" "timer_set st" "resolved st = None"
  shows "augment_step st e =
           st\<lparr>is_done := True, timer_set := False,
              resolved := Some (settled_value (stderr_output st) e),
              sigterm_sent := (sigterm_sent st \<or> e = Timeout)\<rparr>"
  using assms
  by (cases e) (simp_all add: augment_step_def settles_def resolve_promise_def settled_value_def MAX_OUTPUT_CHARS_def Let_def)

lemma augment_done_step:
  assumes "is_done st" "\<not> timer_set st"
  shows "is_done (augment_step st e) \<and> \<not> timer_set (augment_step st e)
       \<and> resolved (augment_step st e) = resolved st \<and> sigterm_sent (augment_step st e) = sigterm_sent st"
  using assms by (cases e) (simp_all add: augment_step_def)

lemma augment_done_steps:
  assumes "is_done st" "\<not> timer_set st"
  shows "resolved (foldl augment_step st evs) = resolved st \<and> sigterm_sent (foldl augment_step st evs) = sigterm_sent st"
  using assms
proof (induction evs arbitrary: st)
  case Nil
  then show ?case by simp
next
  case (Cons e evs)
  from augment_done_step[OF Cons.prems, of e] Cons.IH[of "augment_step st e"] show ?case by simp
qed

lemma augment_events_split:
  "\<not> list_ex settles evs \<Longrightarrow> \<exists>chunks. evs = map StderrData chunks"
proof (induction evs)
  case Nil
  then show ?case by simp
next
  case (Cons e evs)
  then obtain chunks where "evs = map StderrData chunks" by auto
  moreover from Cons.prems obtain c where "e = StderrData c" by (cases e) (auto simp: settles_def)
  ultimately have "e # evs = map StderrData (c # chunks)" by simp
  then show ?case by (rule exI[of _ "c # chunks"])
qed

lemma augment_first_settling:
  "list_ex settles evs \<Longrightarrow> \<exists>chunks e rest. evs = map StderrData chunks @ e # rest \<and> settles e"
proof (induction evs)
  case Nil
  then show ?case by simp
next
  case (Cons e evs)
  show ?case
  proof (cases "settles e")
    case True
    then have "e # evs = map StderrData [] @ e # evs \<and> settles e" by simp
    then show ?thesis by (intro exI)
  next
    case False
    then obtain c where c: "e = StderrData c" by (cases e) (auto simp: settles_def)
    from False Cons.prems have "list_ex settles evs" by simp
    from Cons.IH[OF this] obtain chunks e' rest where "evs = map StderrData chunks @ e' # rest" "settles e'" by blast
    then have "e # evs = map StderrData (c # chunks) @ e' # rest \<and> settles e'" using c by simp
    then show ?thesis by (intro exI)
  qed
qed

lemma runAugment_settled:
  assumes "settles e"
  shows "resolved (runAugment (map StderrData chunks @ e # rest)) = Some (settled_value (concat chunks) e)
       \<and> sigterm_sent (runAugment (map StderrData chunks @ e # rest)) = (e = Timeout)"
proof -
  let ?st = "augment_start\<lparr>stderr_output := concat chunks\<rparr>"
  have a: "foldl augment_step augment_start (map StderrData chunks) = ?st"
    using augment_data_steps[of augment_start chunks] by (simp add: augment_start_def)
  have b: "augment_step ?st e = ?st\<lparr>is_done := True, timer_set := False,
              resolved := Some (settled_value (concat chunks) e),
              sigterm_sent := (e = Timeout)\<rparr>"
    using augment_settling_step[OF assms, of ?st] by (simp add: augment_start_def)
  have c: "runAugment (map StderrData chunks @ e # rest) = foldl augment_step (augment_step ?st e) rest"
    by (simp add: runAugment_def a)
  show ?thesis unfolding c b
    using augment_done_steps[of "?st\<lparr>is_done := True, timer_set := False,
              resolved := Some (settled_value (concat chunks) e),
              sigterm_sent := (e = Timeout)\<rparr>" rest]
    by simp
qed

lemma runAugment_unsettled:
  "resolved (runAugment (map StderrData chunks)) = None \<and> timer_set (runAugment (map StderrData chunks))"
  by (simp add: runAugment_def augment_data_steps augment_start_def)

lemma length_settled_value: "length (settled_value out e) \<le> 8192"
  by (cases e) (simp_all add: settled_value_def)

text \<open>
  Claim C6. The promise of \<open>runAugment\<close> has no reject path and the handlers are total,
  so the call neither rejects nor throws. The command vector is ready to run, so
  \<open>spawn\<close> returns a child, and a failure to start it arrives as the \<open>'error'\<close> event.
  Let the runtime deliver chunks of output and then a first event \<open>e\<close> that is not a
  chunk, followed by anything. The promise is then resolved, once and for all: with the
  empty string when \<open>e\<close> is the timeout, and the child is sent SIGTERM exactly in this
  case; with the empty string when \<open>e\<close> is the \<open>'error'\<close> event or a close with a code
  other than 0; with the trimmed output cut to 8192 characters when \<open>e\<close> is a close
  with code 0. Any sequence of events with such an event resolves the promise; one with
  only chunks leaves it pending with the timer still set, so that the timeout is still
  to come. No resolved value is longer than 8192 characters.
\<close>

theorem C6_runAugment_always_resolves:
  "(settles e \<longrightarrow>
       resolved (runAugment (map StderrData chunks @ e # rest)) =
         Some (case e of
                 ProcClose code \<Rightarrow> (if code = Some 0 then take 8192 (trim (concat chunks)) else [])
               | _ \<Rightarrow> [])
     \<and> sigterm_sent (runAugment (map StderrData chunks @ e # rest)) = (e = Timeout))
   \<and> (list_ex settles evs \<longrightarrow> resolved (runAugment evs) \<noteq> None)
   \<and> (\<not> list_ex settles evs \<longrightarrow> resolved (runAugment evs) = None \<and> timer_set (runAugment evs))
   \<and> (\<forall>v. resolved (runAugment evs) = Some v \<longrightarrow> length v \<le> 8192)"
proof -
  have a: "settles e \<longrightarrow>
       resolved (runAugment (map StderrData chunks @ e # rest)) =
         Some (case e of
                 ProcClose code \<Rightarrow> (if code = Some 0 then take 8192 (trim (concat chunks)) else [])
               | _ \<Rightarrow> [])
     \<and> sigterm_sent (runAugment (map StderrData chunks @ e # rest)) = (e = Timeout)"
    using runAugment_settled[of e chunks rest] by (simp add: settled_value_def)
  have b: "resolved (runAugment evs) \<noteq> None \<and> (\<forall>v. resolved (runAugment evs) = Some v \<longrightarrow> length v \<le> 8192)"
    if "list_ex settles evs"
  proof -
    from augment_first_settling[OF that] obtain cs e' r where "evs = map StderrData cs @ e' # r" "settles e'" by blast
    then show ?thesis using runAugment_settled[of e' cs r] length_settled_value[of "concat cs" e'] by simp
  qed
  have c: "resolved (runAugment evs) = None \<and> timer_set (runAugment evs)"
    if "\<not> list_ex settles evs"
  proof -
    from augment_events_split[OF that] obtain cs where "evs = map StderrData cs" by blast
    then show ?thesis using runAugment_unsettled[of cs] by simp
  qed
  show ?thesis using a b c by (cases "list_ex settles evs") auto
qed

theorem C6_runAugment_always_resolves_witness:
  "resolved (runAugment [StderrData ''  hel'', StderrData ''lo  '', ProcClose (Some 0), Timeout]) = Some ''hello''
   \<and> \<not> sigterm_sent (runAugment [StderrData ''  hel'', StderrData ''lo  '', ProcClose (Some 0), Timeout])
   \<and> resolved (runAugment [StderrData ''  hel'', Timeout, ProcClose (Some 0)]) = Some []
   \<and> sigterm_sent (runAugment [StderrData ''  hel'', Timeout, ProcClose (Some 0)])
   \<and> resolved (runAugment [StderrData ''x'', ProcClose (Some 1)]) = Some []
   \<and> resolved (runAugment [ProcError, ProcClose None]) = Some []
   \<and> resolved (runAugment [StderrData ''x'']) = None"
proof -
  have t: "trim ''  hello  '' = ''hello''" by (simp add: trim_def is_ws_def)
  have s: "settles (ProcClose (Some 0))" "settles Timeout" "settles (ProcClose (Some 1))" "settles ProcError"
    "\<not> list_ex settles [StderrData ''x'']"
    by (simp_all add: settles_def)
  show ?thesis
    using C6_runAugment_always_resolves[of "ProcClose (Some 0)" "[''  hel'', ''lo  '']" "[Timeout]" "[StderrData ''x'']"]
      C6_runAugment_always_resolves[of Timeout "[''  hel'']" "[ProcClose (Some 0)]" "[]"]
      C6_runAugment_always_resolves[of "ProcClose (Some 1)" "[''x'']" "[]" "[]"]
      C6_runAugment_always_resolves[of ProcError "[]" "[ProcClose None]" "[]"]
      s t
    by simp
qed


section \<open>Properties of the path guard\<close>

lemma split_on_segments_no_sep: "s \<in> set (split_on d str) \<Longrightarrow> d \<notin> set s"
proof (induction str arbitrary: s)
  case Nil
  then show ?case by simp
next
  case (Cons c cs)
  show ?case
  proof (cases "c = d")
    case True
    then show ?thesis using Cons by auto
  next
    case False
    obtain w ws where w: "split_on d cs = w # ws" using split_on_nonempty[of d cs] by (cases "split_on d cs") auto
    then have "s = c # w \<or> s \<in> set ws" using Cons.prems False by simp
    then show ?thesis using Cons.IH[of w] Cons.IH[of s] w False by auto
  qed
qed

lemma split_on_prepend: "d \<notin> set x \<Longrightarrow> split_on d (x @ d # rest) = x # split_on d rest"
  by (induction x) auto

lemma split_on_join:
  "segs \<noteq> [] \<Longrightarrow> (\<And>s. s \<in> set segs \<Longrightarrow> d \<notin> set s) \<Longrightarrow> split_on d (join [d] segs) = segs"
proof (induction "[d]" segs rule: join.induct)
  case 1
  then show ?case by simp
next
  case (2 x)
  then show ?case by (simp add: split_on_no_sep)
next
  case (3 x y ys)
  have "split_on d (x @ d # join [d] (y # ys)) = x # split_on d (join [d] (y # ys))"
    using "3.prems"(2)[of x] by (simp add: split_on_prepend)
  then show ?case using 3 by simp
qed

lemma normalize_segments_set:
  "set (normalize_segments kept ss) \<subseteq> set kept \<union> (set ss - {[], ''.'', ''..''})"
proof (induction kept ss rule: normalize_segments.induct)
  case (1 kept)
  then show ?case by simp
next
  case (2 kept s ss)
  then show ?case by (auto split: list.splits if_splits)
qed

lemma resolve_segments:
  "set (split_on (CHR ''/'') (resolve pcwd dir f)) \<inter> {''.'', ''..''} = {}"
proof -
  define joined where "joined = (if is_absolute f then f
                    else if is_absolute dir then dir @ ''/'' @ f
                    else pcwd @ ''/'' @ dir @ ''/'' @ f)"
  define segs where "segs = normalize_segments [] (split_on (CHR ''/'') joined)"
  have r: "resolve pcwd dir f = CHR ''/'' # join ''/'' segs"
    by (simp add: resolve_def joined_def segs_def Let_def)
  have sub: "set segs \<subseteq> set (split_on (CHR ''/'') joined) - {[], ''.'', ''..''}"
    unfolding segs_def using normalize_segments_set[of "[]" "split_on (CHR ''/'') joined"] by simp
  have ns: "CHR ''/'' \<notin> set s" if "s \<in> set segs" for s
    using that sub split_on_segments_no_sep[of s "CHR ''/''" joined] by auto
  show ?thesis
  proof (cases "segs = []")
    case True
    then show ?thesis unfolding r by simp
  next
    case False
    have "split_on (CHR ''/'') (join ''/'' segs) = segs"
      using split_on_join[OF False, of "CHR ''/''"] ns by simp
    then have "split_on (CHR ''/'') (CHR ''/'' # join ''/'' segs) = [] # segs" by simp
    then show ?thesis unfolding r using sub by auto
  qed
qed

lemma resolve_absolute: "is_absolute (resolve pcwd dir f)"
  by (simp add: resolve_def is_absolute_def Let_def)

text \<open>
  Claim C8. \<open>safeResolvePath(file, cwd)\<close> returns the resolved path exactly when that
  path equals \<open>cwd\<close> or starts with \<open>cwd\<close> followed by the separator, and \<open>null\<close> in
  every other case. A path it returns is absolute and has no \<open>..\<close> or \<open>.\<close> segment, so
  that it lies in \<open>cwd\<close>. A resolved path that continues the string \<open>cwd\<close> with
  anything but a separator, as a sibling directory does, is rejected. When the tool is
  given a \<open>file\<close> that the guard rejects, the backend is not called, and past the tool's
  earlier checks (an index exists, a name or a uid is given) the answer is
  \<open>Invalid file path.\<close>; any call of the backend for a request with a \<open>file\<close> carries
  the resolved path the guard returned.
\<close>

theorem C8_path_guard:
  "(safeResolvePath pcwd f cwd = Some r \<longleftrightarrow>
       r = resolve pcwd cwd f \<and> (r = cwd \<or> prefix (cwd @ ''/'') r))
   \<and> (safeResolvePath pcwd f cwd = None \<longleftrightarrow>
       resolve pcwd cwd f \<noteq> cwd \<and> \<not> prefix (cwd @ ''/'') (resolve pcwd cwd f))
   \<and> (safeResolvePath pcwd f cwd = Some r \<longrightarrow>
       is_absolute r \<and> ''..'' \<notin> set (split_on (CHR ''/'') r) \<and> ''.'' \<notin> set (split_on (CHR ''/'') r))
   \<and> (resolve pcwd cwd f = cwd @ extra \<and> extra \<noteq> [] \<and> hd extra \<noteq> CHR ''/'' \<longrightarrow>
       safeResolvePath pcwd f cwd = None)
   \<and> (file_arg params = Some f \<and> f \<noteq> [] \<and> safeResolvePath pcwd f cwd = None \<longrightarrow>
       fst (gitnexus_context idx backend pcwd params cwd) = []
       \<and> (idx cwd \<and> (truthy_text (name params) \<or> truthy_text (uid params)) \<longrightarrow>
            gitnexus_context idx backend pcwd params cwd = ([], ''Invalid file path.'')))
   \<and> (file_arg params = Some f \<and> f \<noteq> [] \<and> args \<in> set (fst (gitnexus_context idx backend pcwd params cwd)) \<longrightarrow>
       (\<exists>safe. safeResolvePath pcwd f cwd = Some safe \<and> args = params\<lparr>file_arg := Some safe\<rparr>))"
proof -
  have a: "safeResolvePath pcwd f cwd = Some r \<longleftrightarrow>
       r = resolve pcwd cwd f \<and> (r = cwd \<or> prefix (cwd @ ''/'') r)"
    by (auto simp: safeResolvePath_def sep_def Let_def)
  have b: "safeResolvePath pcwd f cwd = None \<longleftrightarrow>
       resolve pcwd cwd f \<noteq> cwd \<and> \<not> prefix (cwd @ ''/'') (resolve pcwd cwd f)"
    by (auto simp: safeResolvePath_def sep_def Let_def)
  have c: "is_absolute r \<and> ''..'' \<notin> set (split_on (CHR ''/'') r) \<and> ''.'' \<notin> set (split_on (CHR ''/'') r)"
    if "safeResolvePath pcwd f cwd = Some r"
  proof -
    from that a have "r = resolve pcwd cwd f" by simp
    then show ?thesis using resolve_segments[of pcwd cwd f] resolve_absolute[of pcwd cwd f] by auto
  qed
  have d: "safeResolvePath pcwd f cwd = None"
    if "resolve pcwd cwd f = cwd @ extra \<and> extra \<noteq> [] \<and> hd extra \<noteq> CHR ''/''"
  proof -
    from that obtain m ms where m: "extra = m # ms" "m \<noteq> CHR ''/''" by (cases extra) auto
    then have "\<not> prefix (cwd @ ''/'') (cwd @ extra)" by simp
    moreover have "cwd @ extra \<noteq> cwd" using m by simp
    ultimately show ?thesis using that b by simp
  qed
  have e: "fst (gitnexus_context idx backend pcwd params cwd) = []
       \<and> (idx cwd \<and> (truthy_text (name params) \<or> truthy_text (uid params)) \<longrightarrow>
            gitnexus_context idx backend pcwd params cwd = ([], ''Invalid file path.''))"
    if "file_arg params = Some f \<and> f \<noteq> [] \<and> safeResolvePath pcwd f cwd = None"
    using that by (auto simp: gitnexus_context_def truthy_text_def Let_def)
  have g: "\<exists>safe. safeResolvePath pcwd f cwd = Some safe \<and> args = params\<lparr>file_arg := Some safe\<rparr>"
    if "file_arg params = Some f \<and> f \<noteq> [] \<and> args \<in> set (fst (gitnexus_context idx backend pcwd params cwd))"
    using that by (auto simp: gitnexus_context_def truthy_text_def Let_def split: if_splits option.splits)
  show ?thesis using a b c d e g by blast
qed

theorem C8_path_guard_witness:
  "safeResolvePath ''/'' ''../proj2/x.ts'' ''/home/u/proj'' = None
   \<and> gitnexus_context (\<lambda>d. True) (\<lambda>a. ''ctx'') ''/'' example_params ''/home/u/proj'' = ([], ''Invalid file path.'')
   \<and> safeResolvePath ''/'' ''src/../lib/x.ts'' ''/home/u/proj'' = Some ''/home/u/proj/lib/x.ts''
   \<and> safeResolvePath ''/'' ''.'' ''/home/u/proj'' = Some ''/home/u/proj''
   \<and> ''..'' \<notin> set (split_on (CHR ''/'') ''/home/u/proj/lib/x.ts'')"
proof -
  have r1: "resolve ''/'' ''/home/u/proj'' ''../proj2/x.ts'' = ''/home/u/proj'' @ ''2/x.ts''" by code_simp
  have r2: "resolve ''/'' ''/home/u/proj'' ''src/../lib/x.ts'' = ''/home/u/proj/lib/x.ts''" by code_simp
  have r3: "resolve ''/'' ''/home/u/proj'' ''.'' = ''/home/u/proj''" by code_simp
  have p: "file_arg example_params = Some ''../proj2/x.ts''" "truthy_text (name example_params)"
    by (simp_all add: example_params_def truthy_text_def)
  note A = C8_path_guard[of "''/''" "''../proj2/x.ts''" "''/home/u/proj''" "''x''" "''2/x.ts''" example_params
      "\<lambda>d. True" "\<lambda>a. ''ctx''" example_params]
  have n: "safeResolvePath ''/'' ''../proj2/x.ts'' ''/home/u/proj'' = None"
    using A r1 by simp
  have g: "gitnexus_context (\<lambda>d. True) (\<lambda>a. ''ctx'') ''/'' example_params ''/home/u/proj'' = ([], ''Invalid file path.'')"
    using A n p by simp
  note B = C8_path_guard[of "''/''" "''src/../lib/x.ts''" "''/home/u/proj''" "''/home/u/proj/lib/x.ts''" "[]" example_params
      "\<lambda>d. True" "\<lambda>a. ''ctx''" example_params]
  have s: "safeResolvePath ''/'' ''src/../lib/x.ts'' ''/home/u/proj'' = Some ''/home/u/proj/lib/x.ts''"
    using B r2 by simp
  have s': "''..'' \<notin> set (split_on (CHR ''/'') ''/home/u/proj/lib/x.ts'')"
    using B s by blast
  note C = C8_path_guard[of "''/''" "''.''" "''/home/u/proj''" "''/home/u/proj''" "[]" example_params
      "\<lambda>d. True" "\<lambda>a. ''ctx''" example_params]
  have t: "safeResolvePath ''/'' ''.'' ''/home/u/proj'' = Some ''/home/u/proj''"
    using C r3 by simp
  show ?thesis using n g s s' t by blast
qed


section \<open>Properties of the pattern extractor\<close>

subsection \<open>The scan of a shell command\<close>

lemma bash_scan_plain:
  assumes "t \<notin> set TRIGGERS"
  shows "bash_scan False False (t # toks) = bash_scan False False toks"
proof -
  have a: "t \<noteq> ''grep''" "t \<noteq> ''rg''" "t \<notin> set FILE_CMDS" "t \<noteq> ''-name''" "t \<noteq> ''-iname''"
    using assms by (simp_all add: TRIGGERS_def FILE_CMDS_def)
  show ?thesis by (simp only: bash_scan.simps a if_False simp_thms) simp
qed

lemma bash_scan_skip:
  assumes "\<forall>t \<in> set pre. t \<notin> set TRIGGERS"
  shows "bash_scan False False (pre @ toks) = bash_scan False False toks"
  using assms
proof (induction pre)
  case Nil
  then show ?case by simp
next
  case (Cons t ts)
  then have "t \<notin> set TRIGGERS" by simp
  from bash_scan_plain[OF this] Cons show ?case by simp
qed

lemma dash_not_grep:
  assumes "starts_with_dash t"
  shows "t \<noteq> ''grep'' \<and> t \<noteq> ''rg''"
proof -
  from assms obtain r where "t = CHR ''-'' # r" by (auto simp: starts_with_dash_def prefix_def)
  then show ?thesis by simp
qed

lemma bash_scan_flag:
  assumes "starts_with_dash t"
  shows "bash_scan True False (t # toks) = bash_scan True False toks"
proof -
  have a: "t \<noteq> ''grep''" "t \<noteq> ''rg''" using dash_not_grep[OF assms] by simp_all
  show ?thesis by (simp only: bash_scan.simps a assms if_False if_True simp_thms)
qed

lemma bash_scan_flags:
  assumes "\<forall>t \<in> set flags. starts_with_dash t"
  shows "bash_scan True False (flags @ toks) = bash_scan True False toks"
  using assms
proof (induction flags)
  case Nil
  then show ?case by simp
next
  case (Cons t ts)
  then have "starts_with_dash t" by simp
  from bash_scan_flag[OF this] Cons show ?case by simp
qed

lemma bash_scan_start:
  assumes "g = ''grep'' \<or> g = ''rg''"
  shows "bash_scan a b (g # toks) = bash_scan True False toks"
  using assms by (simp only: bash_scan.simps if_True)

lemma bash_scan_expr:
  assumes "\<not> starts_with_dash expr" "expr \<noteq> ''grep''" "expr \<noteq> ''rg''"
  shows "bash_scan True False (expr # toks) = Some (strip_chars REGEX_META (strip_chars QUOTES expr))"
  by (simp only: bash_scan.simps assms if_False if_True simp_thms)

lemma strip_chars_id: "set s \<inter> set cls = {} \<Longrightarrow> strip_chars cls s = s"
  by (auto simp: strip_chars_def filter_id_conv)

lemma bash_scan_grep:
  assumes "\<forall>t \<in> set pre. t \<notin> set TRIGGERS"
    and "g = ''grep'' \<or> g = ''rg''"
    and "\<forall>t \<in> set flags. starts_with_dash t"
    and "\<not> starts_with_dash expr" "expr \<noteq> ''grep''" "expr \<noteq> ''rg''"
  shows "bash_scan False False (pre @ [g] @ flags @ [expr] @ rest) = Some (strip_chars REGEX_META (strip_chars QUOTES expr))"
proof -
  have "bash_scan False False (pre @ [g] @ flags @ [expr] @ rest) = bash_scan False False (g # (flags @ expr # rest))"
    using bash_scan_skip[OF assms(1)] by simp
  also have "\<dots> = bash_scan True False (flags @ expr # rest)"
    by (rule bash_scan_start[OF assms(2)])
  also have "\<dots> = bash_scan True False (expr # rest)"
    by (rule bash_scan_flags[OF assms(3)])
  also have "\<dots> = Some (strip_chars REGEX_META (strip_chars QUOTES expr))"
    by (rule bash_scan_expr[OF assms(4-6)])
  finally show ?thesis .
qed

lemma primary_bash:
  "primary_pattern ''bash'' inp =
     bash_scan False False (split_ws (case str_field inp ''command'' of Some s \<Rightarrow> s | None \<Rightarrow> []))"
proof -
  have a: "''bash'' \<noteq> ''grep''" "''bash'' \<noteq> ''find''" by simp_all
  show ?thesis unfolding primary_pattern_def Let_def by (simp only: a if_False if_True simp_thms)
qed

lemma primary_grep:
  "primary_pattern ''grep'' inp =
     (case str_field inp ''pattern'' of
           None \<Rightarrow> None
         | Some raw \<Rightarrow> if raw = [] then None else Some (strip_chars REGEX_META raw))"
  unfolding primary_pattern_def by (simp only: if_True simp_thms)

text \<open>
  Claim C5, as the code has it. Let the tokens of a shell command be: tokens of which
  none is \<open>grep\<close>, \<open>rg\<close>, \<open>cat\<close>, \<open>head\<close>, \<open>tail\<close>, \<open>less\<close>, \<open>wc\<close>, \<open>-name\<close> or
  \<open>-iname\<close>; then \<open>grep\<close> or \<open>rg\<close>; then tokens that start with a dash; then a token
  \<open>expr\<close> that does not start with a dash, is not \<open>grep\<close> or \<open>rg\<close> itself, holds no
  quote and no regular-expression metacharacter, and has at least 3 characters; then
  anything. Then \<open>extractPattern\<close> with the tool name \<open>bash\<close> returns \<open>expr\<close> unchanged.
  For the tool \<open>grep\<close>, the result is the input's \<open>pattern\<close> with every character of the
  set \<open>\ ^ $ . * + ? ( ) [ ] { } |\<close> removed, and \<open>null\<close> when what is left has fewer
  than 3 characters, or when the input has no string \<open>pattern\<close>.
\<close>

theorem C5_grep_extraction:
  "(str_field inp ''command'' = Some cmd
      \<and> split_ws cmd = pre @ [g] @ flags @ [expr] @ rest
      \<and> (\<forall>t \<in> set pre. t \<notin> set TRIGGERS)
      \<and> (g = ''grep'' \<or> g = ''rg'')
      \<and> (\<forall>t \<in> set flags. starts_with_dash t)
      \<and> \<not> starts_with_dash expr \<and> expr \<noteq> ''grep'' \<and> expr \<noteq> ''rg''
      \<and> set expr \<inter> set REGEX_META = {}
      \<and> set expr \<inter> set QUOTES = {}
      \<and> length expr \<ge> 3
      \<longrightarrow> extractPattern ''bash'' inp = Some expr)
   \<and> (str_field inp ''pattern'' = Some raw \<longrightarrow>
        extractPattern ''grep'' inp =
          (if length (strip_chars REGEX_META raw) < 3 then None
           else Some (strip_chars REGEX_META raw)))
   \<and> (str_field inp ''pattern'' = None \<longrightarrow> extractPattern ''grep'' inp = None)
   \<and> strip_chars REGEX_META raw = filter (\<lambda>c. c \<notin> set (CHR 0x5C # ''^$.*+?()[]{}|'')) raw"
proof -
  have a: "extractPattern ''bash'' inp = Some expr"
    if h: "str_field inp ''command'' = Some cmd"
      "split_ws cmd = pre @ [g] @ flags @ [expr] @ rest"
      "\<forall>t \<in> set pre. t \<notin> set TRIGGERS"
      "g = ''grep'' \<or> g = ''rg''"
      "\<forall>t \<in> set flags. starts_with_dash t"
      "\<not> starts_with_dash expr" "expr \<noteq> ''grep''" "expr \<noteq> ''rg''"
      "set expr \<inter> set REGEX_META = {}"
      "set expr \<inter> set QUOTES = {}"
      "length expr \<ge> 3"
  proof -
    have q: "strip_chars QUOTES expr = expr" by (rule strip_chars_id[OF h(10)])
    have m: "strip_chars REGEX_META expr = expr" by (rule strip_chars_id[OF h(9)])
    have "bash_scan False False (split_ws cmd) = Some expr"
      unfolding h(2) using bash_scan_grep[OF h(3-8), of rest] q m by simp
    then have "primary_pattern ''bash'' inp = Some expr"
      unfolding primary_bash using h(1) by simp
    then show ?thesis using h(11) unfolding extractPattern_def by auto
  qed
  have b: "extractPattern ''grep'' inp =
          (if length (strip_chars REGEX_META raw) < 3 then None
           else Some (strip_chars REGEX_META raw))"
    if "str_field inp ''pattern'' = Some raw"
    unfolding extractPattern_def primary_grep using that by (auto simp: strip_chars_def)
  have c: "extractPattern ''grep'' inp = None" if "str_field inp ''pattern'' = None"
    unfolding extractPattern_def primary_grep using that by simp
  have d: "strip_chars REGEX_META raw = filter (\<lambda>c. c \<notin> set (CHR 0x5C # ''^$.*+?()[]{}|'')) raw"
    by (simp only: strip_chars_def REGEX_META_def)
  show ?thesis using a b c d by blast
qed

text \<open>
  The claim as stated fails: one candidate is produced per command, by the rule that
  fires first in the scan. In \<open>cat main.ts | grep hello\<close> that is the rule of \<open>cat\<close>.
\<close>

theorem C5_grep_extraction_counterexample:
  "extractPattern ''bash'' [(''command'', VStr ''cat main.ts | grep hello'')] = Some ''main''
   \<and> extractPattern ''bash'' [(''command'', VStr ''cat main.ts | grep hello'')] \<noteq> Some ''hello''"
  by code_simp

theorem C5_grep_extraction_witness:
  "extractPattern ''bash'' example_input = Some ''hello''
   \<and> extractPattern ''grep'' example_input = Some ''withdraw''"
proof -
  have f: "str_field example_input ''command'' = Some ''grep -rn hello src/''"
    "str_field example_input ''pattern'' = Some ''with.draw(''"
    by (simp_all add: example_input_def str_field_def)
  have t: "split_ws ''grep -rn hello src/'' = [] @ [''grep''] @ [''-rn''] @ [''hello''] @ [''src/'']"
    by code_simp
  have e: "\<not> starts_with_dash ''hello''" "\<forall>t \<in> set [''-rn'']. starts_with_dash t"
    "set ''hello'' \<inter> set REGEX_META = {}" "set ''hello'' \<inter> set QUOTES = {}"
    by (simp_all add: starts_with_dash_def REGEX_META_def QUOTES_def)
  have m: "strip_chars REGEX_META ''with.draw('' = ''withdraw''"
    by (simp add: strip_chars_def REGEX_META_def)
  show ?thesis
    using C5_grep_extraction[of example_input "''grep -rn hello src/''" "[]" "''grep''" "[''-rn'']" "''hello''" "[''src/'']"
        "''with.draw(''"] f t e m
    by simp
qed


subsection \<open>The batch extractor\<close>

lemma fold_option_map_filter:
  "fold (\<lambda>x st. case g x of Some p \<Rightarrow> f p st | None \<Rightarrow> st) xs st = fold f (List.map_filter g xs) st"
  by (induction xs arbitrary: st) (auto simp: List.map_filter_simps split: option.splits)

lemma add_derive:
  "add p (set sn, res) =
     (case derive_entry p of
        None \<Rightarrow> (set sn, res)
      | Some e \<Rightarrow> if pattern e \<in> set sn then (set sn, res) else (set (pattern e # sn), res @ [e]))"
  by (auto simp: add_def derive_entry_def Let_def)

lemma fold_add_first_occurrences:
  "\<exists>sn'. fold add ps (set sn, res) = (set sn', res @ first_occurrences sn (List.map_filter derive_entry ps))
        \<and> (first_occurrences sn (List.map_filter derive_entry ps) = [] \<longrightarrow> set sn' = set sn)"
proof (induction ps arbitrary: sn res)
  case Nil
  show ?case by (auto simp: List.map_filter_simps)
next
  case (Cons p ps)
  show ?case
  proof (cases "derive_entry p")
    case None
    then have a: "add p (set sn, res) = (set sn, res)" by (simp add: add_derive)
    from Cons[of sn res] show ?thesis unfolding fold_Cons comp_def a
      using None by (simp add: List.map_filter_simps)
  next
    case (Some e)
    show ?thesis
    proof (cases "pattern e \<in> set sn")
      case True
      then have a: "add p (set sn, res) = (set sn, res)" using Some by (simp add: add_derive)
      from Cons[of sn res] show ?thesis unfolding fold_Cons comp_def a
        using Some True by (simp add: List.map_filter_simps)
    next
      case False
      then have a: "add p (set sn, res) = (set (pattern e # sn), res @ [e])" using Some by (simp add: add_derive)
      from Cons[of "pattern e # sn" "res @ [e]"] show ?thesis unfolding fold_Cons comp_def a
        using Some False by (auto simp: List.map_filter_simps)
    qed
  qed
qed

lemma extractFiles_batch:
  "extractFilesFromReadMany inp blocks =
     (if batch_of (files_paths inp) \<noteq> [] then batch_of (files_paths inp) else batch_of (at_paths blocks))"
proof -
  let ?f = "\<lambda>f st. case file_path_of f of Some p \<Rightarrow> add p st | None \<Rightarrow> st"
  let ?g = "\<lambda>line st. case at_path line of Some p \<Rightarrow> add p st | None \<Rightarrow> st"
  obtain sn1 where s1: "fold add (files_paths inp) (set [], []) = (set sn1, [] @ batch_of (files_paths inp))"
    "batch_of (files_paths inp) = [] \<longrightarrow> set sn1 = set []"
    using fold_add_first_occurrences[of "files_paths inp" "[]" "[]"] unfolding batch_of_def by blast
  have st1: "fold ?f (input_files inp) ({}, []) = (set sn1, batch_of (files_paths inp))"
    using s1(1) by (simp add: fold_option_map_filter files_paths_def)
  show ?thesis
  proof (cases "batch_of (files_paths inp) = []")
    case False
    then show ?thesis unfolding extractFilesFromReadMany_def Let_def st1 by simp
  next
    case True
    then have e: "fold ?f (input_files inp) ({}, []) = (set [], [])" using st1 s1(2) by simp
    obtain sn2 where s2: "fold add (at_paths blocks) (set [], []) = (set sn2, [] @ batch_of (at_paths blocks))"
      using fold_add_first_occurrences[of "at_paths blocks" "[]" "[]"] unfolding batch_of_def by blast
    have "fold ?g (split_on NL (content_text blocks)) (set [], []) = (set sn2, batch_of (at_paths blocks))"
      using s2 by (simp add: fold_option_map_filter at_paths_def)
    then show ?thesis unfolding extractFilesFromReadMany_def Let_def e using True by simp
  qed
qed

lemma first_occurrences_props:
  "set (first_occurrences sn es) \<subseteq> set es
   \<and> distinct (map pattern (first_occurrences sn es))
   \<and> set (map pattern (first_occurrences sn es)) = set (map pattern es) - set sn"
  by (induction sn es rule: first_occurrences.induct) auto

lemma derive_entry_props:
  "e \<in> set (List.map_filter derive_entry ps) \<Longrightarrow>
     path e \<in> set ps \<and> extname (path e) \<in> set CODE_EXTENSIONS \<and> pattern e = strip_ext (basename (path e)) \<and> length (pattern e) \<ge> 3"
  by (auto simp: List.map_filter_def derive_entry_def split: if_splits)

lemma batch_of_props:
  "e \<in> set (batch_of ps) \<Longrightarrow>
     path e \<in> set ps \<and> extname (path e) \<in> set CODE_EXTENSIONS \<and> pattern e = strip_ext (basename (path e)) \<and> length (pattern e) \<ge> 3"
  using first_occurrences_props[of "[]" "List.map_filter derive_entry ps"] derive_entry_props[of e ps]
  unfolding batch_of_def by blast

lemma first_occurrences_subseq: "subseq (first_occurrences sn es) es"
  by (induction sn es rule: first_occurrences.induct) auto

lemma first_occurrences_find:
  "e \<in> set (first_occurrences sn es) \<Longrightarrow> find (\<lambda>x. pattern x = pattern e) es = Some e"
proof (induction sn es rule: first_occurrences.induct)
  case (1 seen)
  then show ?case by simp
next
  case (2 seen h es)
  show ?case
  proof (cases "pattern h \<in> set seen")
    case True
    then have m: "e \<in> set (first_occurrences seen es)" using "2.prems" by simp
    then have "pattern e \<notin> set seen" using first_occurrences_props[of seen es] by auto
    then have "pattern h \<noteq> pattern e" using True by auto
    then show ?thesis using "2.IH"(1)[OF True m] by simp
  next
    case False
    show ?thesis
    proof (cases "e = h")
      case True
      then show ?thesis by simp
    next
      case ne: False
      then have m: "e \<in> set (first_occurrences (pattern h # seen) es)" using "2.prems" False by simp
      then have "pattern e \<notin> set (pattern h # seen)" using first_occurrences_props[of "pattern h # seen" es] by auto
      then have "pattern h \<noteq> pattern e" by auto
      then show ?thesis using "2.IH"(2)[OF False m] by simp
    qed
  qed
qed

text \<open>
  Claim C3, as the code has it. \<open>extractFilesFromReadMany\<close> is the batch rule applied to
  the paths of the input's \<open>files\<close> list; when that yields no pair, in particular when
  the input carries no \<open>files\<close> list, it is the batch rule applied to the paths of the
  lines \<open>@<path>\<close> of the result text. Every pair of a batch has a path of the list
  with a recognised code extension, its pattern is the extension-stripped basename of
  the path and has at least 3 characters, and the pair is the first one of the derived
  pairs with this pattern; the batch keeps the order of the paths, has every derived
  pattern and has none twice. The extractor does not cap its result. The cap is in the
  hook: for a \<open>read_many\<close> event it dispatches at most 5 patterns, those of the first 5
  pairs whose pattern is not yet in the dedup set.
\<close>

theorem C3_batch_extraction:
  "extractFilesFromReadMany inp blocks =
     (if batch_of (files_paths inp) \<noteq> [] then batch_of (files_paths inp) else batch_of (at_paths blocks))
   \<and> ((\<forall>fs. map_of inp ''files'' \<noteq> Some (VArr fs)) \<longrightarrow>
        extractFilesFromReadMany inp blocks = batch_of (at_paths blocks))
   \<and> (\<forall>e \<in> set (batch_of ps).
         path e \<in> set ps
       \<and> extname (path e) \<in> set CODE_EXTENSIONS
       \<and> pattern e = strip_ext (basename (path e))
       \<and> 3 \<le> length (pattern e)
       \<and> find (\<lambda>x. pattern x = pattern e) (List.map_filter derive_entry ps) = Some e)
   \<and> subseq (batch_of ps) (List.map_filter derive_entry ps)
   \<and> pattern ` set (batch_of ps) = pattern ` set (List.map_filter derive_entry ps)
   \<and> distinct (map pattern (batch_of ps))
   \<and> (toolName ev = ''read_many'' \<longrightarrow>
        length (fst (snd (tool_result idx aug cc s ev))) \<le> 5
      \<and> (augmentEnabled s \<and> idx (if sessionCwd s \<noteq> [] then sessionCwd s else cc) \<longrightarrow>
           fst (snd (tool_result idx aug cc s ev)) =
             map pattern (take 5 (filter (\<lambda>f. pattern f \<notin> augmentedCache s)
                                         (extractFilesFromReadMany (input ev) (content ev))))))"
proof -
  have a: "extractFilesFromReadMany inp blocks =
     (if batch_of (files_paths inp) \<noteq> [] then batch_of (files_paths inp) else batch_of (at_paths blocks))"
    by (rule extractFiles_batch)
  have b: "extractFilesFromReadMany inp blocks = batch_of (at_paths blocks)"
    if "\<forall>fs. map_of inp ''files'' \<noteq> Some (VArr fs)"
  proof -
    have "input_files inp = []" using that by (auto simp: input_files_def split: option.splits jsval.splits)
    then have "batch_of (files_paths inp) = []"
      by (simp add: files_paths_def batch_of_def List.map_filter_simps)
    then show ?thesis using a by simp
  qed
  have c: "\<forall>e \<in> set (batch_of ps).
         path e \<in> set ps
       \<and> extname (path e) \<in> set CODE_EXTENSIONS
       \<and> pattern e = strip_ext (basename (path e))
       \<and> 3 \<le> length (pattern e)
       \<and> find (\<lambda>x. pattern x = pattern e) (List.map_filter derive_entry ps) = Some e"
    using batch_of_props[of _ ps] first_occurrences_find[of _ "[]" "List.map_filter derive_entry ps"]
    unfolding batch_of_def[symmetric] by blast
  have d: "subseq (batch_of ps) (List.map_filter derive_entry ps)"
    unfolding batch_of_def by (rule first_occurrences_subseq)
  have e: "pattern ` set (batch_of ps) = pattern ` set (List.map_filter derive_entry ps)"
    "distinct (map pattern (batch_of ps))"
    using first_occurrences_props[of "[]" "List.map_filter derive_entry ps"] unfolding batch_of_def by auto
  have f: "length (fst (snd (tool_result idx aug cc s ev))) \<le> 5"
    using tool_result_dispatch[of idx aug cc s ev "fst (tool_result idx aug cc s ev)"
        "fst (snd (tool_result idx aug cc s ev))" "snd (snd (tool_result idx aug cc s ev))"]
    by simp
  have g: "fst (snd (tool_result idx aug cc s ev)) =
             map pattern (take 5 (filter (\<lambda>f. pattern f \<notin> augmentedCache s)
                                         (extractFilesFromReadMany (input ev) (content ev))))"
    if "toolName ev = ''read_many''" "augmentEnabled s" "idx (if sessionCwd s \<noteq> [] then sessionCwd s else cc)"
  proof -
    have "toolName ev \<in> set SEARCH_TOOLS" using that(1) by (simp add: SEARCH_TOOLS_def)
    then show ?thesis
      unfolding tool_result_cases using that by (simp add: read_many_dispatched)
  qed
  show ?thesis using a b c d e f g by blast
qed

text \<open>
  The claim as stated fails: of eight paths, six have a code extension and a pattern of
  their own, and the extractor returns all six.
\<close>

theorem C3_batch_extraction_counterexample:
  "length (extractFilesFromReadMany six_files []) = 6
   \<and> \<not> length (extractFilesFromReadMany six_files []) \<le> 5"
  by code_simp

theorem C3_batch_extraction_witness:
  "map pattern (extractFilesFromReadMany six_files []) = [''aa1'', ''aa2'', ''aa3'', ''aa4'', ''aa5'', ''aa6'']
   \<and> map path (extractFilesFromReadMany six_files []) =
        [''src/aa1.ts'', ''aa2.ts'', ''aa3.ts'', ''aa4.ts'', ''aa5.ts'', ''aa6.ts'']
   \<and> fst (snd (tool_result (\<lambda>d. True) example_augment ''/repo'' example_session0 read_many_event))
        = [''aa1'', ''aa2'', ''aa3'', ''aa4'', ''aa5'']
   \<and> extractFilesFromReadMany [] at_blocks =
        [\<lparr>path = ''src/main.ts'', pattern = ''main''\<rparr>, \<lparr>path = ''lib/util.py'', pattern = ''util''\<rparr>]"
proof -
  note A = C3_batch_extraction[of six_files "[]" "files_paths six_files" read_many_event "\<lambda>d. True"
      example_augment "''/repo''" example_session0]
  note B = C3_batch_extraction[of "[]" at_blocks "at_paths at_blocks" read_many_event "\<lambda>d. True"
      example_augment "''/repo''" example_session0]
  have b1: "batch_of (files_paths six_files) =
      [\<lparr>path = ''src/aa1.ts'', pattern = ''aa1''\<rparr>, \<lparr>path = ''aa2.ts'', pattern = ''aa2''\<rparr>,
       \<lparr>path = ''aa3.ts'', pattern = ''aa3''\<rparr>, \<lparr>path = ''aa4.ts'', pattern = ''aa4''\<rparr>,
       \<lparr>path = ''aa5.ts'', pattern = ''aa5''\<rparr>, \<lparr>path = ''aa6.ts'', pattern = ''aa6''\<rparr>]"
    by code_simp
  have e1: "extractFilesFromReadMany six_files [] = batch_of (files_paths six_files)"
    using A[THEN conjunct1] b1 by simp
  have ev: "toolName read_many_event = ''read_many''" "input read_many_event = six_files" "content read_many_event = []"
    "augmentEnabled example_session0" "sessionCwd example_session0 = []" "augmentedCache example_session0 = {}"
    by (simp_all add: read_many_event_def example_session0_def)
  have d: "fst (snd (tool_result (\<lambda>d. True) example_augment ''/repo'' example_session0 read_many_event)) =
             map pattern (take 5 (filter (\<lambda>f. pattern f \<notin> augmentedCache example_session0)
                                         (extractFilesFromReadMany (input read_many_event) (content read_many_event))))"
    using A[THEN conjunct2, THEN conjunct2, THEN conjunct2, THEN conjunct2, THEN conjunct2, THEN conjunct2] ev(1,4)
    by simp
  have b2: "batch_of (at_paths at_blocks) =
      [\<lparr>path = ''src/main.ts'', pattern = ''main''\<rparr>, \<lparr>path = ''lib/util.py'', pattern = ''util''\<rparr>]"
    by code_simp
  have e2: "extractFilesFromReadMany [] at_blocks = batch_of (at_paths at_blocks)"
    using B[THEN conjunct2, THEN conjunct1] by simp
  show ?thesis
    unfolding d ev e1 e2 b1 b2 by simp
qed


end
